theory Spec2Isabelle
  imports Complex_Main "HOL-Library.Word" "HOL-Library.AList"
begin

section \<open>The workload engine of neobench (pkg/neobench/workload.go)\<close>

text \<open>
  Go's \<open>int\<close> and \<open>uint\<close> are taken at their 64-bit width: both are \<open>64 word\<close>, and the
  conversion \<open>int(script.Weight)\<close> keeps the bits. Comparisons of \<open>int\<close> values are signed
  (\<open>\<le>s\<close>). A Go map is an object on the heap that several references may share: the store
  below maps addresses to map contents, and a map reference is \<open>None\<close> (the nil map) or
  \<open>Some\<close> address. The content of a map is an association list read through \<open>map_of\<close>;
  \<open>m[k] = v\<close> is \<open>AList.update\<close>, and \<open>range m\<close> visits every key once with its value
  (\<open>AList.clearjunk\<close>). A \<open>*rand.Rand\<close> is the address of a generator in the store; the
  package gets every one of them from \<open>rand.New\<close>, so it is never nil.
\<close>

subsection \<open>Values, errors, panics\<close>

datatype Value = Int64 "64 word" | Float64 "64 word" | String string | Bool bool

datatype error =
    ExprError string
  | SleepNotInteger Value
      \<comment> \<open>\<open>fmt.Errorf("\\sleep must be given an integer expression, got %v", sleepNumber)\<close>\<close>

datatype panic =
    IntnInvalidArgument     \<comment> \<open>\<open>rand.Intn\<close> called with \<open>n <= 0\<close>\<close>
  | IndexOutOfRange nat nat \<comment> \<open>index, length\<close>
  | NilMapAssignment        \<comment> \<open>assignment to an entry of a nil map\<close>

subsection \<open>math/rand and sort, by their contracts\<close>

text \<open>
  The generator of math/rand is outside the repository, and nothing of its algorithm is
  modelled. A generator is the stream of outputs of its source with a cursor, and two
  oracles for \<open>Intn\<close>: at the cursor and for the bound \<open>n\<close>, \<open>yields\<close> names the value that
  \<open>Intn(n)\<close> returns and \<open>redraws\<close> the number of outputs it consumes beyond the first.
  Only the documented contract is built in: \<open>Intn(n)\<close> panics for \<open>n <= 0\<close>; otherwise it
  returns a value in \<open>[0, n)\<close> (what the oracle names is brought into that range) and
  consumes at least one output. Every value in \<open>[0, n)\<close> is what \<open>Intn(n)\<close> returns on some
  generator. \<open>Int63\<close> returns the next output of the source, a non-negative 63-bit value.
\<close>

datatype generator =
  Generator (cursor: nat) (outputs: "nat \<Rightarrow> nat")
    (yields: "nat \<Rightarrow> 64 word \<Rightarrow> nat") (redraws: "nat \<Rightarrow> 64 word \<Rightarrow> nat")

definition Intn :: "generator \<Rightarrow> 64 word \<Rightarrow> panic + (64 word \<times> generator)" where
  "Intn g n =
     (if n \<le>s 0 then Inl IntnInvalidArgument
      else Inr (of_nat (yields g (cursor g) n mod unat n),
                Generator (Suc (cursor g + redraws g (cursor g) n)) (outputs g) (yields g) (redraws g)))"

definition Int63 :: "generator \<Rightarrow> 64 word \<times> generator" where
  "Int63 g =
     (of_nat (outputs g (cursor g) mod 2 ^ 63),
      Generator (Suc (cursor g)) (outputs g) (yields g) (redraws g))"

text \<open>
  \<open>sort.Search(n, f)\<close>: the loop \<open>for i < j { h := int(uint(i+j) >> 1); if !f(h) { i = h + 1 }
  else { j = h } }\<close> started at \<open>i, j = 0, n\<close>. The indices never exceed a slice length, so
  they are natural numbers here and \<open>h\<close> is the exact midpoint.
\<close>

function Search_loop :: "(nat \<Rightarrow> bool) \<Rightarrow> nat \<Rightarrow> nat \<Rightarrow> nat" where
  "Search_loop f i j =
     (if i < j then
        (let h = (i + j) div 2
         in if \<not> f h then Search_loop f (h + 1) j else Search_loop f i h)
      else i)"
  by pat_completeness auto
termination
  by (relation "measure (\<lambda>(f, i, j). j - i)") auto

definition Search :: "nat \<Rightarrow> (nat \<Rightarrow> bool) \<Rightarrow> nat" where
  "Search n f = Search_loop f 0 n"

definition SearchInts :: "64 word list \<Rightarrow> 64 word \<Rightarrow> nat" where
  "SearchInts a x = Search (length a) (\<lambda>i. x \<le>s a ! i)"

subsection \<open>The store\<close>

type_synonym vars = "(string \<times> Value) list"
type_synonym mapref = "nat option"

record store =
  maps :: "nat \<Rightarrow> vars"        \<comment> \<open>the map objects, by address\<close>
  maps_next :: nat              \<comment> \<open>the next free map address\<close>
  rands :: "nat \<Rightarrow> generator"   \<comment> \<open>the \<open>rand.Rand\<close> objects, by address\<close>
  rands_next :: nat
  sleeps :: "64 word list"      \<comment> \<open>the arguments of \<open>time.Sleep\<close>, in call order\<close>

definition deref :: "store \<Rightarrow> mapref \<Rightarrow> vars" where
  "deref st m = (case m of None \<Rightarrow> [] | Some a \<Rightarrow> maps st a)"

definition make_map :: "store \<Rightarrow> nat \<times> store" where
  "make_map st = (maps_next st, st\<lparr>maps := (maps st)(maps_next st := []), maps_next := Suc (maps_next st)\<rparr>)"

definition map_store :: "nat \<Rightarrow> string \<Rightarrow> Value \<Rightarrow> store \<Rightarrow> store" where
  "map_store a k v st = st\<lparr>maps := (maps st)(a := AList.update k v (maps st a))\<rparr>"

text \<open>
  The copy loop that \<open>Next\<close> and \<open>QueryCommand.Execute\<close> both write out:
  \<open>dst := make(map[string]interface{}); for k, v := range src { dst[k] = v }\<close>.
\<close>

definition copy_vars :: "mapref \<Rightarrow> store \<Rightarrow> nat \<times> store" where
  "copy_vars src st =
     (let (dst, st1) = make_map st
      in (dst, fold (\<lambda>(k, v). map_store dst k v) (AList.clearjunk (deref st1 src)) st1))"

subsection \<open>Scripts and the weighted choice\<close>

text \<open>
  Modelled from the spec: the \<open>Expression\<close> interface, which is declared elsewhere in the
  package. A command uses an expression only through \<open>Eval(ctx) (value, error)\<close>, where
  the context exposes the variable scope and the randomness stream: an expression reads
  the bindings of the scope, may draw from the context's generator, and yields a value or
  an error. The values are integers, floating-point numbers (by their bits), strings and
  booleans.
\<close>

type_synonym Expression = "(string \<rightharpoonup> Value) \<Rightarrow> generator \<Rightarrow> (error + Value) \<times> generator"

datatype Command =
    QueryCommand string
  | SetCommand string Expression
  | SleepCommand Expression "64 word"

record Script =
  Readonly :: bool
  Weight :: "64 word"
  Commands :: "Command list"

record Scripts =
  Scripts :: "Script list"
  WeightedLookup :: "64 word list"
  TotalWeight :: "64 word"

fun NewScripts_loop :: "nat \<Rightarrow> Script list \<Rightarrow> 64 word \<Rightarrow> 64 word list \<Rightarrow> 64 word list \<times> 64 word" where
  "NewScripts_loop i [] cumulativeWeight lookupTable = (lookupTable, cumulativeWeight)"
| "NewScripts_loop i (script # rest) cumulativeWeight lookupTable =
     (let cumulativeWeight' = cumulativeWeight + Weight script
      in NewScripts_loop (Suc i) rest cumulativeWeight' (lookupTable[i := cumulativeWeight']))"

definition NewScripts :: "Script list \<Rightarrow> Scripts" where
  "NewScripts scripts =
     (let (lookupTable, cumulativeWeight) =
            NewScripts_loop 0 scripts 0 (replicate (length scripts) 0)
      in \<lparr>Scripts = scripts, WeightedLookup = lookupTable, TotalWeight = cumulativeWeight\<rparr>)"

text \<open>Steps 2 and 3 of \<open>Choose\<close>: the binary search and the indexing \<open>s.Scripts[index]\<close>.\<close>

definition Choose_at :: "Scripts \<Rightarrow> 64 word \<Rightarrow> panic + Script" where
  "Choose_at s point =
     (let index = SearchInts (WeightedLookup s) point
      in if index < length (Scripts s) then Inr (Scripts s ! index)
         else Inl (IndexOutOfRange index (length (Scripts s))))"

definition Choose :: "Scripts \<Rightarrow> nat \<Rightarrow> store \<Rightarrow> (panic + Script) \<times> store" where
  "Choose s r st =
     (if length (Scripts s) = 1 then (Inr (Scripts s ! 0), st)
      else case Intn (rands st r) (TotalWeight s) of
             Inl p \<Rightarrow> (Inl p, st)
           | Inr (d, g) \<Rightarrow> (Choose_at s (d + 1), st\<lparr>rands := (rands st)(r := g)\<rparr>))"

subsection \<open>Script evaluation\<close>

type_synonym Writer = nat \<comment> \<open>an \<open>io.Writer\<close>, by its handle\<close>

definition os_Stderr :: Writer where
  "os_Stderr = 2"

record ScriptContext =
  Stderr :: Writer
  Vars :: mapref
  Rand :: nat

record Statement =
  Query :: string
  Params :: mapref

record UnitOfWork =
  uow_Readonly :: bool
  Statements :: "Statement list"

text \<open>\<open>Expression.Eval(ctx)\<close>: the draws of the expression advance the context's generator.\<close>

definition Expression_Eval :: "Expression \<Rightarrow> ScriptContext \<Rightarrow> store \<Rightarrow> (error + Value) \<times> store" where
  "Expression_Eval e ctx st =
     (let (res, g) = e (map_of (deref st (Vars ctx))) (rands st (Rand ctx))
      in (res, st\<lparr>rands := (rands st)(Rand ctx := g)\<rparr>))"

text \<open>
  \<open>Execute(ctx, uow)\<close> returns the error (\<open>None\<close> is \<open>nil\<close>) or panics, and leaves the
  unit of work and the store as the command changed them.
\<close>

fun Execute :: "Command \<Rightarrow> ScriptContext \<Rightarrow> UnitOfWork \<Rightarrow> store
    \<Rightarrow> (panic + error option) \<times> UnitOfWork \<times> store" where
  "Execute (QueryCommand q) ctx uow st =
     (let (params, st1) = copy_vars (Vars ctx) st
      in (Inr None,
          uow\<lparr>Statements := Statements uow @ [\<lparr>Query = q, Params = Some params\<rparr>]\<rparr>,
          st1))"
| "Execute (SetCommand VarName Expression) ctx uow st =
     (case Expression_Eval Expression ctx st of
        (Inl err, st1) \<Rightarrow> (Inr (Some err), uow, st1)
      | (Inr v, st1) \<Rightarrow>
          (case Vars ctx of
             None \<Rightarrow> (Inl NilMapAssignment, uow, st1)
           | Some a \<Rightarrow> (Inr None, uow, map_store a VarName v st1)))"
| "Execute (SleepCommand Duration Unit) ctx uow st =
     (case Expression_Eval Duration ctx st of
        (Inl err, st1) \<Rightarrow> (Inr (Some err), uow, st1)
      | (Inr sleepNumber, st1) \<Rightarrow>
          (case sleepNumber of
             Int64 sleepInt \<Rightarrow> (Inr None, uow, st1\<lparr>sleeps := sleeps st1 @ [sleepInt * Unit]\<rparr>)
           | _ \<Rightarrow> (Inr (Some (SleepNotInteger sleepNumber)), uow, st1)))"

fun Eval_loop :: "Command list \<Rightarrow> ScriptContext \<Rightarrow> UnitOfWork \<Rightarrow> store
    \<Rightarrow> (panic + UnitOfWork \<times> error option) \<times> store" where
  "Eval_loop [] ctx uow st = (Inr (uow, None), st)"
| "Eval_loop (cmd # cmds) ctx uow st =
     (case Execute cmd ctx uow st of
        (Inl p, uow1, st1) \<Rightarrow> (Inl p, st1)
      | (Inr (Some err), uow1, st1) \<Rightarrow> (Inr (uow1, Some err), st1)
      | (Inr None, uow1, st1) \<Rightarrow> Eval_loop cmds ctx uow1 st1)"

definition Eval :: "Script \<Rightarrow> ScriptContext \<Rightarrow> store \<Rightarrow> (panic + UnitOfWork \<times> error option) \<times> store" where
  "Eval s ctx st = Eval_loop (Commands s) ctx \<lparr>uow_Readonly = Readonly s, Statements = []\<rparr> st"

subsection \<open>Workload and client\<close>

record Workload =
  wl_Variables :: mapref
  wl_Scripts :: Scripts
  wl_Rand :: nat

record ClientWorkload =
  cw_Readonly :: bool
  cw_Variables :: mapref
  cw_Scripts :: Scripts
  cw_Rand :: nat
  cw_Stderr :: Writer

text \<open>
  \<open>rand.New(rand.NewSource(seed))\<close> allocates a generator that the seed determines;
  \<open>NewSource\<close> gives the generator for a seed.
\<close>

definition rand_New :: "generator \<Rightarrow> store \<Rightarrow> nat \<times> store" where
  "rand_New src st =
     (rands_next st,
      st\<lparr>rands := (rands st)(rands_next st := src), rands_next := Suc (rands_next st)\<rparr>)"

definition NewClient :: "(64 word \<Rightarrow> generator) \<Rightarrow> Workload \<Rightarrow> store \<Rightarrow> ClientWorkload \<times> store" where
  "NewClient NewSource s st =
     (let (seed, g) = Int63 (rands st (wl_Rand s));
          st1 = st\<lparr>rands := (rands st)(wl_Rand s := g)\<rparr>;
          (r, st2) = rand_New (NewSource seed) st1
      in (\<lparr>cw_Readonly = False, cw_Variables = wl_Variables s, cw_Scripts = wl_Scripts s,
           cw_Rand = r, cw_Stderr = os_Stderr\<rparr>, st2))"

definition Next :: "ClientWorkload \<Rightarrow> store \<Rightarrow> (panic + UnitOfWork \<times> error option) \<times> store" where
  "Next s st =
     (let (vars, st1) = copy_vars (cw_Variables s) st
      in case Choose (cw_Scripts s) (cw_Rand s) st1 of
           (Inl p, st2) \<Rightarrow> (Inl p, st2)
         | (Inr script, st2) \<Rightarrow>
             Eval script \<lparr>Stderr = cw_Stderr s, Vars = Some vars, Rand = cw_Rand s\<rparr> st2)"

text \<open>A client's loop: \<open>k\<close> calls of \<open>Next\<close> one after the other, whatever each returns.\<close>

fun Next_calls :: "nat \<Rightarrow> ClientWorkload \<Rightarrow> store \<Rightarrow> store" where
  "Next_calls 0 s st = st"
| "Next_calls (Suc k) s st = Next_calls k s (snd (Next s st))"

subsection \<open>Well-formed references\<close>

text \<open>
  A map reference held by a running program is nil or the address of a map that
  \<open>make\<close> has returned.
\<close>

definition allocated :: "store \<Rightarrow> mapref \<Rightarrow> bool" where
  "allocated st m = (case m of None \<Rightarrow> True | Some a \<Rightarrow> a < maps_next st)"

subsection \<open>The specification's account of \<open>Eval\<close>\<close>

text \<open>
  The specification speaks of the unit of work accumulated by a sequence of commands and of
  the command that is the first to fail. \<open>accumulated\<close> runs commands one after the
  other on the unit of work and the store, and \<open>reported\<close> lists what each of them
  returned in its turn.
\<close>

fun accumulated :: "Command list \<Rightarrow> ScriptContext \<Rightarrow> UnitOfWork \<Rightarrow> store \<Rightarrow> UnitOfWork \<times> store" where
  "accumulated [] ctx uow st = (uow, st)"
| "accumulated (cmd # cmds) ctx uow st =
     (case Execute cmd ctx uow st of (res, uow1, st1) \<Rightarrow> accumulated cmds ctx uow1 st1)"

fun reported :: "Command list \<Rightarrow> ScriptContext \<Rightarrow> UnitOfWork \<Rightarrow> store \<Rightarrow> (panic + error option) list" where
  "reported [] ctx uow st = []"
| "reported (cmd # cmds) ctx uow st =
     (case Execute cmd ctx uow st of (res, uow1, st1) \<Rightarrow> res # reported cmds ctx uow1 st1)"

subsection \<open>Weights as natural numbers\<close>

text \<open>The weight of the first \<open>k\<close> scripts, added up without wrap-around.\<close>

definition weight_upto :: "Script list \<Rightarrow> nat \<Rightarrow> nat" where
  "weight_upto scripts k = sum_list (map (unat \<circ> Weight) (take k scripts))"

subsection \<open>The uniform draw\<close>

text \<open>
  The specification takes the draw to be uniform, as math/rand documents \<open>Intn(n)\<close>: each
  of the \<open>n\<close> values of \<open>[0, n)\<close> is equally likely. The probability of an event on the
  value drawn is the share of those values that are in it.
\<close>

definition uniform_probability :: "nat \<Rightarrow> (nat \<Rightarrow> bool) \<Rightarrow> real" where
  "uniform_probability n E = real (length (filter E [0..<n])) / real n"

subsection \<open>Stores and expressions to run examples with\<close>

text \<open>The generator on which \<open>Intn\<close> returns \<open>d\<close> (brought into range) at every call.\<close>

definition constant_generator :: "nat \<Rightarrow> generator" where
  "constant_generator d = Generator 0 (\<lambda>_. 0) (\<lambda>_ _. d) (\<lambda>_ _. 0)"

definition store0 :: store where
  "store0 = \<lparr>maps = (\<lambda>_. []), maps_next = 0, rands = (\<lambda>_. constant_generator 0),
              rands_next = 1, sleeps = []\<rparr>"

text \<open>The store in which \<open>Intn\<close> returns \<open>d\<close> on every generator.\<close>

definition store_drawing :: "nat \<Rightarrow> store" where
  "store_drawing d = store0\<lparr>rands := (\<lambda>_. constant_generator d)\<rparr>"

text \<open>A store with one map, at address 0, that binds \<open>scale\<close> to 1.\<close>

definition store1 :: store where
  "store1 = \<lparr>maps = (\<lambda>_. [])(0 := [(''scale'', Int64 1)]), maps_next = 1,
              rands = (\<lambda>_. constant_generator 0), rands_next = 1, sleeps = []\<rparr>"

definition Const :: "Value \<Rightarrow> Expression" where
  "Const v = (\<lambda>vs g. (Inr v, g))"

definition Fail :: "error \<Rightarrow> Expression" where
  "Fail err = (\<lambda>vs g. (Inl err, g))"

definition zero_source :: "64 word \<Rightarrow> generator" where
  "zero_source seed = constant_generator 0"

text \<open>
  Two scripts, a context on the map at address 0, and a client whose only script is the
  second one.
\<close>

definition script_q_q_sleep :: Script where
  "script_q_q_sleep = \<lparr>Readonly = True, Weight = 1, Commands =
      [QueryCommand ''q1'', QueryCommand ''q2'', SleepCommand (Const (String ''ten'')) 1000,
       QueryCommand ''q3'']\<rparr>"

definition script_q_set :: Script where
  "script_q_set = \<lparr>Readonly = False, Weight = 1, Commands =
      [QueryCommand ''q'', SetCommand ''scale'' (Const (Int64 5))]\<rparr>"

definition ctx1 :: ScriptContext where
  "ctx1 = \<lparr>Stderr = os_Stderr, Vars = Some 0, Rand = 0\<rparr>"

text \<open>A script that only sets a variable, and a context whose scope is the nil map.\<close>

definition script_set :: Script where
  "script_set = \<lparr>Readonly = False, Weight = 1, Commands =
      [SetCommand ''scale'' (Const (Int64 5))]\<rparr>"

definition ctx_nil :: ScriptContext where
  "ctx_nil = \<lparr>Stderr = os_Stderr, Vars = None, Rand = 0\<rparr>"

definition client0 :: ClientWorkload where
  "client0 = \<lparr>cw_Readonly = False, cw_Variables = Some 0, cw_Scripts = NewScripts [script_q_set],
               cw_Rand = 0, cw_Stderr = os_Stderr\<rparr>"

text \<open>
  Three scripts of weights 2, 3 and 3, and three scripts whose weights are non-negative as
  \<open>int\<close> but add up beyond the largest \<open>int\<close>, \<open>2^63 - 1\<close>.
\<close>

definition scripts_2_3_3 :: "Script list" where
  "scripts_2_3_3 =
     [\<lparr>Readonly = True, Weight = 2, Commands = [QueryCommand ''a'']\<rparr>,
      \<lparr>Readonly = True, Weight = 3, Commands = [QueryCommand ''b'']\<rparr>,
      \<lparr>Readonly = False, Weight = 3, Commands = [QueryCommand ''c'']\<rparr>]"

definition scripts_wrapping :: "Script list" where
  "scripts_wrapping =
     [\<lparr>Readonly = True, Weight = 9223372036854775807, Commands = [QueryCommand ''a'']\<rparr>,
      \<lparr>Readonly = True, Weight = 9223372036854775807, Commands = [QueryCommand ''b'']\<rparr>,
      \<lparr>Readonly = False, Weight = 3, Commands = [QueryCommand ''c'']\<rparr>]"

section \<open>Properties\<close>

subsection \<open>The binary search\<close>

lemma Search_loop_done: "\<not> i < j \<Longrightarrow> Search_loop f i j = i"
  by simp

lemma Search_loop_right:
  "i < j \<Longrightarrow> \<not> f ((i + j) div 2) \<Longrightarrow> Search_loop f i j = Search_loop f ((i + j) div 2 + 1) j"
  by (subst Search_loop.simps) (simp add: Let_def)

lemma Search_loop_left:
  "i < j \<Longrightarrow> f ((i + j) div 2) \<Longrightarrow> Search_loop f i j = Search_loop f i ((i + j) div 2)"
  by (subst Search_loop.simps) (simp add: Let_def)

declare Search_loop.simps [simp del]

lemma Search_loop_range: "i \<le> j \<Longrightarrow> i \<le> Search_loop f i j \<and> Search_loop f i j \<le> j"
proof (induction f i j rule: Search_loop.induct)
  case (1 f i j)
  show ?case
  proof (cases "i < j")
    case False
    with 1(3) show ?thesis by (simp add: Search_loop_done)
  next
    case True
    let ?h = "(i + j) div 2"
    have h: "i \<le> ?h" "?h < j" using True by auto
    show ?thesis
    proof (cases "f ?h")
      case True
      with 1(2) [OF \<open>i < j\<close> refl] h \<open>i < j\<close> show ?thesis
        by (simp add: Search_loop_left)
    next
      case False
      with 1(1) [OF \<open>i < j\<close> refl] h \<open>i < j\<close> show ?thesis
        by (simp add: Search_loop_right)
    qed
  qed
qed

lemma Search_loop_hit: "i \<le> j \<Longrightarrow> Search_loop f i j < j \<Longrightarrow> f (Search_loop f i j)"
proof (induction f i j rule: Search_loop.induct)
  case (1 f i j)
  show ?case
  proof (cases "i < j")
    case False
    with 1(3,4) show ?thesis by (simp add: Search_loop_done)
  next
    case True
    let ?h = "(i + j) div 2"
    have h: "i \<le> ?h" "?h < j" using True by auto
    show ?thesis
    proof (cases "f ?h")
      case True
      have eq: "Search_loop f i j = Search_loop f i ?h"
        using \<open>i < j\<close> True by (rule Search_loop_left)
      have "Search_loop f i ?h \<le> ?h" using Search_loop_range [OF h(1)] by simp
      then consider "Search_loop f i ?h < ?h" | "Search_loop f i ?h = ?h" by linarith
      then show ?thesis
      proof cases
        case 1
        then show ?thesis using "1.IH"(2) [OF \<open>i < j\<close> refl _ h(1)] True eq by simp
      next
        case 2
        then show ?thesis using True eq by simp
      qed
    next
      case False
      have eq: "Search_loop f i j = Search_loop f (?h + 1) j"
        using \<open>i < j\<close> False by (rule Search_loop_right)
      show ?thesis using "1.IH"(1) [OF \<open>i < j\<close> refl False] h "1.prems" eq by simp
    qed
  qed
qed

lemma Search_loop_miss:
  "i \<le> j \<Longrightarrow> i < Search_loop f i j \<Longrightarrow> \<not> f (Search_loop f i j - 1)"
proof (induction f i j rule: Search_loop.induct)
  case (1 f i j)
  show ?case
  proof (cases "i < j")
    case False
    with 1(3,4) show ?thesis by (simp add: Search_loop_done)
  next
    case True
    let ?h = "(i + j) div 2"
    have h: "i \<le> ?h" "?h < j" using True by auto
    show ?thesis
    proof (cases "f ?h")
      case True
      have eq: "Search_loop f i j = Search_loop f i ?h"
        using \<open>i < j\<close> True by (rule Search_loop_left)
      show ?thesis using "1.IH"(2) [OF \<open>i < j\<close> refl _ h(1)] True "1.prems" eq by simp
    next
      case False
      have eq: "Search_loop f i j = Search_loop f (?h + 1) j"
        using \<open>i < j\<close> False by (rule Search_loop_right)
      have "?h + 1 \<le> Search_loop f (?h + 1) j" using Search_loop_range [of "?h + 1" j f] h by simp
      then consider "?h + 1 < Search_loop f (?h + 1) j" | "Search_loop f (?h + 1) j = ?h + 1" by linarith
      then show ?thesis
      proof cases
        case 1
        then show ?thesis using "1.IH"(1) [OF \<open>i < j\<close> refl False] h eq by simp
      next
        case 2
        then show ?thesis using False eq by simp
      qed
    qed
  qed
qed

lemma SearchInts_le: "SearchInts a x \<le> length a"
  using Search_loop_range [of 0 "length a"] by (simp add: SearchInts_def Search_def)

lemma SearchInts_hit: "SearchInts a x < length a \<Longrightarrow> x \<le>s a ! SearchInts a x"
  using Search_loop_hit [of 0 "length a" "\<lambda>i. x \<le>s a ! i"] by (simp add: SearchInts_def Search_def)

lemma SearchInts_miss: "0 < SearchInts a x \<Longrightarrow> \<not> x \<le>s a ! (SearchInts a x - 1)"
  using Search_loop_miss [of 0 "length a" "\<lambda>i. x \<le>s a ! i"] by (simp add: SearchInts_def Search_def)

lemma SearchInts_lt_if_last: "a \<noteq> [] \<Longrightarrow> x \<le>s a ! (length a - 1) \<Longrightarrow> SearchInts a x < length a"
proof -
  assume a: "a \<noteq> []" and x: "x \<le>s a ! (length a - 1)"
  have "SearchInts a x \<noteq> length a"
  proof
    assume e: "SearchInts a x = length a"
    then have "0 < SearchInts a x" using a by simp
    from SearchInts_miss [OF this] e x show False by simp
  qed
  with SearchInts_le [of a x] show ?thesis by linarith
qed

subsection \<open>Signed and unsigned readings of small words\<close>

lemma sint_of_small: "unat (x::64 word) < 2 ^ 63 \<Longrightarrow> sint x = int (unat x)"
proof -
  assume a: "unat x < 2 ^ 63"
  have "int (unat x) < int (2 ^ 63)" using a by (simp only: of_nat_less_iff)
  then have "uint x < 2 ^ 63" by simp
  moreover have "- (2 ^ 63) \<le> uint x"
    by (rule order_trans [of _ 0]) simp_all
  ultimately have "signed_take_bit 63 (uint x) = uint x"
    by (intro signed_take_bit_int_eq_self)
  then show ?thesis by (simp add: sint_uint)
qed

lemma small_of_sint: "0 \<le> sint (x::64 word) \<Longrightarrow> unat x < 2 ^ 63"
proof -
  assume a: "0 \<le> sint x"
  have lt: "sint x < 2 ^ 63" using sint_lt [of x] by simp
  have "uint x = take_bit 64 (sint x)" using uint_sint [of x] by simp
  also have "\<dots> = sint x" using a lt by (simp add: take_bit_int_eq_self)
  finally have "int (unat x) < int (2 ^ 63)" using lt by simp
  then show ?thesis by (simp only: of_nat_less_iff)
qed

lemma sle_small: "unat (x::64 word) < 2 ^ 63 \<Longrightarrow> unat y < 2 ^ 63 \<Longrightarrow> x \<le>s y \<longleftrightarrow> unat x \<le> unat y"
  by (simp add: word_sle_eq sint_of_small word_le_def [symmetric] word_le_nat_alt)

lemma pos_small: "\<not> (t::64 word) \<le>s 0 \<Longrightarrow> 0 < unat t \<and> unat t < 2 ^ 63"
proof -
  assume a: "\<not> t \<le>s 0"
  then have "0 < sint t" by (simp add: word_sle_eq)
  then have s: "unat t < 2 ^ 63" using small_of_sint [of t] by simp
  from \<open>0 < sint t\<close> have "0 < int (unat t)" using sint_of_small [OF s] by simp
  then show ?thesis using s by (simp del: of_nat_unat)
qed


subsection \<open>The lookup table of \<open>NewScripts\<close>\<close>

lemma NewScripts_loop_length: "length (fst (NewScripts_loop i ss c tbl)) = length tbl"
  by (induction ss arbitrary: i c tbl) (simp_all add: Let_def)

lemma NewScripts_loop_total: "snd (NewScripts_loop i ss c tbl) = c + sum_list (map Weight ss)"
  by (induction ss arbitrary: i c tbl) (simp_all add: Let_def add.assoc)

lemma NewScripts_loop_nth:
  "i + length ss \<le> length tbl \<Longrightarrow> k < length tbl \<Longrightarrow>
   fst (NewScripts_loop i ss c tbl) ! k =
     (if i \<le> k \<and> k < i + length ss then c + sum_list (map Weight (take (Suc (k - i)) ss))
      else tbl ! k)"
proof (induction ss arbitrary: i c tbl)
  case Nil
  then show ?case by auto
next
  case (Cons s ss)
  let ?c = "c + Weight s"
  have len: "Suc i + length ss \<le> length (tbl[i := ?c])" "k < length (tbl[i := ?c])"
    using Cons.prems by simp_all
  note IH = Cons.IH [OF len, of ?c]
  show ?case
  proof (cases "k = i")
    case True
    then show ?thesis using IH Cons.prems by (simp add: Let_def)
  next
    case False
    show ?thesis
    proof (cases "i < k")
      case True
      then have "Suc (k - Suc i) = k - i" by simp
      moreover have "take (Suc (k - i)) (s # ss) = s # take (k - i) ss" by simp
      ultimately show ?thesis using IH True Cons.prems by (simp add: Let_def add.assoc)
    next
      case f: False
      then show ?thesis using IH False Cons.prems by (simp add: Let_def)
    qed
  qed
qed

lemma Scripts_NewScripts: "Scripts (NewScripts ss) = ss"
  by (simp add: NewScripts_def case_prod_beta)

lemma TotalWeight_NewScripts: "TotalWeight (NewScripts ss) = sum_list (map Weight ss)"
  using NewScripts_loop_total [of 0 ss 0 "replicate (length ss) 0"]
  by (simp add: NewScripts_def case_prod_beta)

lemma length_WeightedLookup: "length (WeightedLookup (NewScripts ss)) = length ss"
  using NewScripts_loop_length [of 0 ss 0 "replicate (length ss) 0"]
  by (simp add: NewScripts_def case_prod_beta)

lemma WeightedLookup_nth:
  "k < length ss \<Longrightarrow> WeightedLookup (NewScripts ss) ! k = sum_list (map Weight (take (Suc k) ss))"
  using NewScripts_loop_nth [of 0 ss "replicate (length ss) 0" k 0]
  by (simp add: NewScripts_def case_prod_beta)

lemma WeightedLookup_last:
  "ss \<noteq> [] \<Longrightarrow> WeightedLookup (NewScripts ss) ! (length ss - 1) = TotalWeight (NewScripts ss)"
  by (simp add: WeightedLookup_nth TotalWeight_NewScripts)

subsection \<open>Drawing a point\<close>

lemma Intn_draw:
  assumes "\<not> n \<le>s 0"
  shows "\<exists>d g. Intn gen n = Inr (d, g) \<and> unat d < unat n \<and> unat (d + 1) = Suc (unat d)"
proof -
  from pos_small [OF assms] have n: "0 < unat n" "unat n < 2 ^ 63" by simp_all
  let ?k = "yields gen (cursor gen) n mod unat n"
  let ?d = "of_nat ?k :: 64 word"
  have k: "?k < unat n" using n(1) by simp
  then have "?k < 2 ^ 64" using n(2) by simp
  then have d: "unat ?d = ?k" by (simp add: unat_of_nat)
  have "unat ?d + unat (1 :: 64 word) < 2 ^ LENGTH(64)" using d k n(2) by simp
  then have "unat (?d + 1) = unat ?d + unat (1 :: 64 word)"
    by (rule unat_add_lem [THEN iffD1])
  then show ?thesis using assms d k by (simp add: Intn_def)
qed

lemma Intn_any_value:
  assumes "\<not> n \<le>s 0" and "unat d < unat n"
  shows "fst (projr (Intn (Generator c src (\<lambda>_ _. unat d) rd) n)) = d
       \<and> isl (Intn (Generator c src (\<lambda>_ _. unat d) rd) n) = False"
  using assms by (simp add: Intn_def)

subsection \<open>Points and scripts\<close>

lemma unat_sum_list:
  "sum_list (map unat ws) < 2 ^ 64 \<Longrightarrow> unat (sum_list ws :: 64 word) = sum_list (map unat ws)"
proof (induction ws)
  case Nil
  show ?case by simp
next
  case (Cons w ws)
  then have "sum_list (map unat ws) < 2 ^ 64" by simp
  then have IH: "unat (sum_list ws) = sum_list (map unat ws)" by (rule Cons.IH)
  have "unat w + unat (sum_list ws) < 2 ^ LENGTH(64)" using Cons.prems IH by simp
  then have "unat (w + sum_list ws) = unat w + unat (sum_list ws)"
    by (rule unat_add_lem [THEN iffD1])
  then show ?case using IH by simp
qed

lemma sum_list_take_mono:
  "a \<le> b \<Longrightarrow> sum_list (map f (take a xs)) \<le> (sum_list (map f (take b xs)) :: nat)"
proof -
  assume "a \<le> b"
  then obtain c where b: "b = a + c" using le_Suc_ex by blast
  show ?thesis by (simp add: b take_add)
qed

lemma sum_list_take_le: "sum_list (map f (take a xs)) \<le> (sum_list (map f xs) :: nat)"
  using sum_list_take_mono [of a "max a (length xs)" f xs] by simp

lemma sum_list_take_Suc:
  "i < length xs \<Longrightarrow> sum_list (map f (take (Suc i) xs)) = sum_list (map f (take i xs)) + (f (xs ! i) :: nat)"
  by (simp add: take_Suc_conv_app_nth)

lemma unat_of_nat_small: "p < 2 ^ 63 \<Longrightarrow> unat (of_nat p :: 64 word) = p"
  by (simp add: unat_of_nat)

lemma weight_upto_0: "weight_upto ss 0 = 0"
  by (simp add: weight_upto_def)

lemma weight_upto_all: "weight_upto ss (length ss) = sum_list (map (unat \<circ> Weight) ss)"
  by (simp add: weight_upto_def)

lemma weight_upto_mono: "a \<le> b \<Longrightarrow> weight_upto ss a \<le> weight_upto ss b"
  unfolding weight_upto_def by (rule sum_list_take_mono)

lemma weight_upto_le: "weight_upto ss a \<le> sum_list (map (unat \<circ> Weight) ss)"
  unfolding weight_upto_def by (rule sum_list_take_le)

lemma weight_upto_Suc: "i < length ss \<Longrightarrow> weight_upto ss (Suc i) = weight_upto ss i + unat (Weight (ss ! i))"
  unfolding weight_upto_def by (simp add: sum_list_take_Suc)

lemma unat_WeightedLookup:
  assumes "sum_list (map (unat \<circ> Weight) ss) < 2 ^ 63" and "k < length ss"
  shows "unat (WeightedLookup (NewScripts ss) ! k) = weight_upto ss (Suc k)"
proof -
  have "sum_list (map unat (map Weight (take (Suc k) ss))) = weight_upto ss (Suc k)"
    by (simp add: weight_upto_def)
  moreover have "weight_upto ss (Suc k) < 2 ^ 64"
    using weight_upto_le [of ss "Suc k"] assms(1) by simp
  ultimately have "unat (sum_list (map Weight (take (Suc k) ss))) = weight_upto ss (Suc k)"
    using unat_sum_list [of "map Weight (take (Suc k) ss)"] by simp
  then show ?thesis using assms(2) by (simp add: WeightedLookup_nth)
qed

lemma unat_TotalWeight:
  assumes "sum_list (map (unat \<circ> Weight) ss) < 2 ^ 63"
  shows "unat (TotalWeight (NewScripts ss)) = sum_list (map (unat \<circ> Weight) ss)"
proof -
  have "sum_list (map unat (map Weight ss)) < 2 ^ 64" using assms by (simp add: comp_def)
  from unat_sum_list [OF this] show ?thesis by (simp add: TotalWeight_NewScripts comp_def)
qed

lemma point_sle_lookup:
  assumes "sum_list (map (unat \<circ> Weight) ss) < 2 ^ 63" and "k < length ss"
    and "p \<le> sum_list (map (unat \<circ> Weight) ss)"
  shows "(of_nat p :: 64 word) \<le>s WeightedLookup (NewScripts ss) ! k \<longleftrightarrow> p \<le> weight_upto ss (Suc k)"
proof -
  have p: "p < 2 ^ 63" using assms(1,3) by simp
  have l: "unat (WeightedLookup (NewScripts ss) ! k) < 2 ^ 63"
    using unat_WeightedLookup [OF assms(1,2)] weight_upto_le [of ss "Suc k"] assms(1) by simp
  have "unat (of_nat p :: 64 word) < 2 ^ 63" using p by (simp add: unat_of_nat_small)
  from sle_small [OF this l] show ?thesis
    using p by (simp add: unat_of_nat_small unat_WeightedLookup [OF assms(1,2)])
qed

lemma SearchInts_segment:
  assumes W: "sum_list (map (unat \<circ> Weight) ss) < 2 ^ 63"
    and p: "1 \<le> p" "p \<le> sum_list (map (unat \<circ> Weight) ss)"
  shows "SearchInts (WeightedLookup (NewScripts ss)) (of_nat p) < length ss
       \<and> weight_upto ss (SearchInts (WeightedLookup (NewScripts ss)) (of_nat p)) < p
       \<and> p \<le> weight_upto ss (Suc (SearchInts (WeightedLookup (NewScripts ss)) (of_nat p)))"
proof -
  let ?a = "WeightedLookup (NewScripts ss)"
  let ?r = "SearchInts ?a (of_nat p)"
  have ne: "ss \<noteq> []" using p by auto
  then have n: "length ss - 1 < length ss" by simp
  have ane: "?a \<noteq> []" using ne length_WeightedLookup [of ss] by auto
  have "p \<le> weight_upto ss (Suc (length ss - 1))" using p(2) ne by (simp add: weight_upto_all)
  then have "of_nat p \<le>s ?a ! (length ?a - 1)"
    using point_sle_lookup [OF W n p(2)] by (simp add: length_WeightedLookup)
  from SearchInts_lt_if_last [OF ane this] have r: "?r < length ss"
    by (simp add: length_WeightedLookup)
  have hit: "p \<le> weight_upto ss (Suc ?r)"
    using SearchInts_hit [of ?a "of_nat p"] r point_sle_lookup [OF W r p(2)]
    by (simp add: length_WeightedLookup)
  have miss: "weight_upto ss ?r < p"
  proof (cases "?r = 0")
    case True
    then show ?thesis using p(1) by (simp add: weight_upto_0)
  next
    case False
    then have pos: "0 < ?r" by simp
    have r1: "?r - 1 < length ss" using r by simp
    from SearchInts_miss [OF pos] point_sle_lookup [OF W r1 p(2)] pos
    show ?thesis by simp
  qed
  from r miss hit show ?thesis by blast
qed

lemma segment_unique:
  assumes "weight_upto ss i < p" "p \<le> weight_upto ss (Suc i)"
    and "weight_upto ss r < p" "p \<le> weight_upto ss (Suc r)"
  shows "r = i"
proof (rule ccontr)
  assume "r \<noteq> i"
  then consider "r < i" | "i < r" by linarith
  then show False
  proof cases
    case 1
    then have "weight_upto ss (Suc r) \<le> weight_upto ss i" by (intro weight_upto_mono) simp
    with assms(1,4) show False by simp
  next
    case 2
    then have "weight_upto ss (Suc i) \<le> weight_upto ss r" by (intro weight_upto_mono) simp
    with assms(2,3) show False by simp
  qed
qed

lemma points_of_script:
  assumes W: "sum_list (map (unat \<circ> Weight) ss) < 2 ^ 63" and i: "i < length ss"
  shows "{p. 1 \<le> p \<and> p \<le> sum_list (map (unat \<circ> Weight) ss)
             \<and> SearchInts (WeightedLookup (NewScripts ss)) (of_nat p) = i}
       = {weight_upto ss i <.. weight_upto ss (Suc i)}"
proof (intro set_eqI iffI)
  fix p
  assume "p \<in> {p. 1 \<le> p \<and> p \<le> sum_list (map (unat \<circ> Weight) ss)
             \<and> SearchInts (WeightedLookup (NewScripts ss)) (of_nat p) = i}"
  then have p: "1 \<le> p" "p \<le> sum_list (map (unat \<circ> Weight) ss)"
    and r: "SearchInts (WeightedLookup (NewScripts ss)) (of_nat p) = i" by simp_all
  from SearchInts_segment [OF W p] r show "p \<in> {weight_upto ss i <.. weight_upto ss (Suc i)}"
    by simp
next
  fix p
  assume "p \<in> {weight_upto ss i <.. weight_upto ss (Suc i)}"
  then have seg: "weight_upto ss i < p" "p \<le> weight_upto ss (Suc i)" by simp_all
  then have p: "1 \<le> p" "p \<le> sum_list (map (unat \<circ> Weight) ss)"
    using weight_upto_le [of ss "Suc i"] by simp_all
  from SearchInts_segment [OF W p]
  have "SearchInts (WeightedLookup (NewScripts ss)) (of_nat p) = i"
    using segment_unique [OF seg] by blast
  with p show "p \<in> {p. 1 \<le> p \<and> p \<le> sum_list (map (unat \<circ> Weight) ss)
             \<and> SearchInts (WeightedLookup (NewScripts ss)) (of_nat p) = i}" by simp
qed

lemma card_points_of_script:
  assumes "sum_list (map (unat \<circ> Weight) ss) < 2 ^ 63" and "i < length ss"
  shows "card {p. 1 \<le> p \<and> p \<le> sum_list (map (unat \<circ> Weight) ss)
             \<and> SearchInts (WeightedLookup (NewScripts ss)) (of_nat p) = i}
       = unat (Weight (ss ! i))"
  unfolding points_of_script [OF assms] by (simp add: weight_upto_Suc [OF assms(2)])

lemma uniform_probability_card:
  "uniform_probability n E = real (card {d. d < n \<and> E d}) / real n"
proof -
  have "{i. i < n \<and> E ([0..<n] ! i)} = {d. d < n \<and> E d}" by auto
  then show ?thesis by (simp add: uniform_probability_def length_filter_conv_card)
qed

lemma card_points_shift:
  "card {d. d < n \<and> Q (Suc d)} = card {p. 1 \<le> p \<and> p \<le> n \<and> Q p}"
proof -
  have "{p. 1 \<le> p \<and> p \<le> n \<and> Q p} = Suc ` {d. d < n \<and> Q (Suc d)}"
  proof (intro set_eqI iffI)
    fix p assume "p \<in> {p. 1 \<le> p \<and> p \<le> n \<and> Q p}"
    then have "p = Suc (p - 1)" "p - 1 < n" "Q (Suc (p - 1))" by auto
    then show "p \<in> Suc ` {d. d < n \<and> Q (Suc d)}" by blast
  next
    fix p assume "p \<in> Suc ` {d. d < n \<and> Q (Suc d)}"
    then show "p \<in> {p. 1 \<le> p \<and> p \<le> n \<and> Q p}" by auto
  qed
  then show ?thesis by (simp add: card_image)
qed

lemma point_of_draw: "(of_nat d :: 64 word) + 1 = of_nat (Suc d)"
  by simp

lemma probability_of_point:
  assumes "1 \<le> p" and "p \<le> n" and "n < 2 ^ 63"
  shows "uniform_probability n (\<lambda>d. unat (of_nat d + 1 :: 64 word) = p) = 1 / real n"
proof -
  have "{d. d < n \<and> unat (of_nat d + 1 :: 64 word) = p} = {p - 1}"
  proof (intro set_eqI iffI)
    fix d assume "d \<in> {d. d < n \<and> unat (of_nat d + 1 :: 64 word) = p}"
    then have d: "d < n" and u: "unat (of_nat (Suc d) :: 64 word) = p"
      by (simp_all add: point_of_draw)
    have "Suc d < 2 ^ 63" using d assms(3) by simp
    then have "Suc d = p" using u unat_of_nat_small [of "Suc d"] by simp
    then show "d \<in> {p - 1}" by simp
  next
    fix d assume "d \<in> {p - 1}"
    then have d: "Suc d = p" "d < n" using assms(1,2) by simp_all
    have "Suc d < 2 ^ 63" using d assms(2,3) by simp
    then have "unat (of_nat (Suc d) :: 64 word) = p" using d unat_of_nat_small [of "Suc d"] by simp
    then show "d \<in> {d. d < n \<and> unat (of_nat d + 1 :: 64 word) = p}"
      using d(2) by (simp add: point_of_draw)
  qed
  then show ?thesis by (simp add: uniform_probability_card)
qed

lemma probability_of_script:
  assumes "sum_list (map (unat \<circ> Weight) ss) < 2 ^ 63" and "i < length ss"
  shows "uniform_probability (sum_list (map (unat \<circ> Weight) ss))
           (\<lambda>d. SearchInts (WeightedLookup (NewScripts ss)) (of_nat d + 1) = i)
         = real (unat (Weight (ss ! i))) / real (sum_list (map (unat \<circ> Weight) ss))"
proof -
  let ?W = "sum_list (map (unat \<circ> Weight) ss)"
  have "card {d. d < ?W \<and> SearchInts (WeightedLookup (NewScripts ss)) (of_nat d + 1) = i}
      = card {d. d < ?W \<and> SearchInts (WeightedLookup (NewScripts ss)) (of_nat (Suc d)) = i}"
    by (simp only: point_of_draw)
  also have "\<dots> = card {p. 1 \<le> p \<and> p \<le> ?W \<and> SearchInts (WeightedLookup (NewScripts ss)) (of_nat p) = i}"
    by (rule card_points_shift [of ?W "\<lambda>p. SearchInts (WeightedLookup (NewScripts ss)) (of_nat p) = i"])
  also have "\<dots> = unat (Weight (ss ! i))" by (rule card_points_of_script [OF assms])
  finally show ?thesis by (simp only: uniform_probability_card)
qed

subsection \<open>Commands and the store\<close>

lemma Expression_Eval_maps:
  "Expression_Eval e ctx st = (res, st1) \<Longrightarrow>
     maps st1 = maps st \<and> maps_next st1 = maps_next st \<and> sleeps st1 = sleeps st \<and> rands_next st1 = rands_next st"
  by (auto simp: Expression_Eval_def split: prod.splits)

lemma fold_map_store:
  "fold (\<lambda>(k, v). map_store d k v) xs st =
     st\<lparr>maps := (maps st)(d := fold (\<lambda>(k, v). AList.update k v) xs (maps st d))\<rparr>"
proof (induction xs arbitrary: st)
  case Nil
  show ?case by simp
next
  case (Cons x xs)
  obtain k v where x: "x = (k, v)" by (cases x)
  have "fold (\<lambda>(k, v). map_store d k v) (x # xs) st = fold (\<lambda>(k, v). map_store d k v) xs (map_store d k v st)"
    by (simp add: x)
  also have "\<dots> = (map_store d k v st)\<lparr>maps := (maps (map_store d k v st))
        (d := fold (\<lambda>(k, v). AList.update k v) xs (maps (map_store d k v st) d))\<rparr>"
    by (rule Cons.IH)
  also have "\<dots> = st\<lparr>maps := (maps st)(d := fold (\<lambda>(k, v). AList.update k v) (x # xs) (maps st d))\<rparr>"
    by (simp add: map_store_def x)
  finally show ?case .
qed

lemma map_of_fold_update:
  "distinct (map fst xs) \<Longrightarrow>
   map_of (fold (\<lambda>(k, v). AList.update k v) xs ys) = map_of ys ++ map_of xs"
proof (induction xs arbitrary: ys)
  case Nil
  show ?case by simp
next
  case (Cons x xs)
  obtain k v where x: "x = (k, v)" by (cases x)
  have k: "k \<notin> dom (map_of xs)" using Cons.prems x by (simp add: dom_map_of_conv_image_fst)
  have "map_of (fold (\<lambda>(k, v). AList.update k v) (x # xs) ys)
      = map_of (AList.update k v ys) ++ map_of xs"
    using Cons.IH [of "AList.update k v ys"] Cons.prems x by simp
  also have "\<dots> = (map_of ys)(k \<mapsto> v) ++ map_of xs" by (simp add: update_conv')
  also have "\<dots> = map_of ys ++ map_of (x # xs)"
    using k x by (auto simp: fun_eq_iff map_add_def split: option.splits)
  finally show ?case .
qed

lemma copy_vars_fresh: "fst (copy_vars src st) = maps_next st"
  by (simp add: copy_vars_def make_map_def)

lemma copy_vars_store:
  "\<exists>xs. snd (copy_vars src st) = st\<lparr>maps := (maps st)(maps_next st := xs), maps_next := Suc (maps_next st)\<rparr>
      \<and> (allocated st src \<longrightarrow> map_of xs = map_of (deref st src))"
proof -
  let ?st1 = "st\<lparr>maps := (maps st)(maps_next st := []), maps_next := Suc (maps_next st)\<rparr>"
  let ?xs = "fold (\<lambda>(k, v). AList.update k v) (AList.clearjunk (deref ?st1 src)) []"
  have "snd (copy_vars src st) = st\<lparr>maps := (maps st)(maps_next st := ?xs), maps_next := Suc (maps_next st)\<rparr>"
    by (simp add: copy_vars_def make_map_def fold_map_store)
  moreover have "map_of ?xs = map_of (deref st src)" if "allocated st src"
  proof -
    have "deref ?st1 src = deref st src"
      using that by (auto simp: deref_def allocated_def split: option.splits)
    then show ?thesis by (simp add: map_of_fold_update map_of_clearjunk)
  qed
  ultimately show ?thesis by blast
qed

lemma Execute_frame:
  assumes "allocated st (Vars ctx)" and "Execute c ctx uow st = (res, uow1, st1)"
  shows "maps_next st \<le> maps_next st1"
    and "a < maps_next st \<Longrightarrow> Vars ctx \<noteq> Some a \<Longrightarrow> maps st1 a = maps st a"
proof -
  have "maps_next st \<le> maps_next st1 \<and> (a < maps_next st \<longrightarrow> Vars ctx \<noteq> Some a \<longrightarrow> maps st1 a = maps st a)"
  proof (cases c)
    case (QueryCommand q)
    obtain xs where eq: "snd (copy_vars (Vars ctx) st) =
        st\<lparr>maps := (maps st)(maps_next st := xs), maps_next := Suc (maps_next st)\<rparr>"
      using copy_vars_store [of "Vars ctx" st] by blast
    have "st1 = snd (copy_vars (Vars ctx) st)"
      using assms(2) QueryCommand by (auto simp: case_prod_beta)
    then show ?thesis by (simp add: eq)
  next
    case (SetCommand x e)
    obtain r st' where e: "Expression_Eval e ctx st = (r, st')" by (cases "Expression_Eval e ctx st")
    then have "maps st' = maps st" "maps_next st' = maps_next st"
      by (auto simp: Expression_Eval_def split: prod.splits)
    then show ?thesis using assms(2) SetCommand e
      by (auto simp: map_store_def split: sum.splits option.splits)
  next
    case (SleepCommand e u)
    obtain r st' where e: "Expression_Eval e ctx st = (r, st')" by (cases "Expression_Eval e ctx st")
    then have "maps st' = maps st" "maps_next st' = maps_next st"
      by (auto simp: Expression_Eval_def split: prod.splits)
    then show ?thesis using assms(2) SleepCommand e
      by (auto split: sum.splits Value.splits)
  qed
  then show "maps_next st \<le> maps_next st1"
    and "a < maps_next st \<Longrightarrow> Vars ctx \<noteq> Some a \<Longrightarrow> maps st1 a = maps st a" by simp_all
qed

lemma allocated_mono: "allocated st m \<Longrightarrow> maps_next st \<le> maps_next st1 \<Longrightarrow> allocated st1 m"
  by (auto simp: allocated_def split: option.splits)

lemma Eval_loop_frame:
  "allocated st (Vars ctx) \<Longrightarrow> Eval_loop cmds ctx uow st = (res, st1) \<Longrightarrow>
   maps_next st \<le> maps_next st1 \<and> (a < maps_next st \<longrightarrow> Vars ctx \<noteq> Some a \<longrightarrow> maps st1 a = maps st a)"
proof (induction cmds arbitrary: uow st)
  case Nil
  then show ?case by simp
next
  case (Cons c cmds)
  obtain r uow' st' where ex: "Execute c ctx uow st = (r, uow', st')"
    by (cases "Execute c ctx uow st")
  note fr = Execute_frame [OF Cons.prems(1) ex]
  show ?case
  proof (cases "r = Inr None")
    case True
    then have "Eval_loop cmds ctx uow' st' = (res, st1)" using Cons.prems(2) ex by simp
    from Cons.IH [OF allocated_mono [OF Cons.prems(1) fr(1)] this] fr show ?thesis
      by (auto simp: )
  next
    case False
    then have "st1 = st'" using Cons.prems(2) ex by (auto split: sum.splits option.splits)
    then show ?thesis using fr by simp
  qed
qed

lemma Choose_maps: "Choose s r st = (res, st1) \<Longrightarrow> maps st1 = maps st \<and> maps_next st1 = maps_next st"
  by (auto simp: Choose_def split: if_splits sum.splits prod.splits)

lemma Next_frame:
  assumes "Next c st = (res, st')"
  shows "maps_next st \<le> maps_next st' \<and> (a < maps_next st \<longrightarrow> maps st' a = maps st a)"
proof -
  obtain xs where cp: "snd (copy_vars (cw_Variables c) st) =
      st\<lparr>maps := (maps st)(maps_next st := xs), maps_next := Suc (maps_next st)\<rparr>"
    using copy_vars_store [of "cw_Variables c" st] by blast
  let ?st1 = "snd (copy_vars (cw_Variables c) st)"
  let ?ctx = "\<lparr>Stderr = cw_Stderr c, Vars = Some (maps_next st), Rand = cw_Rand c\<rparr>"
  obtain r st2 where ch: "Choose (cw_Scripts c) (cw_Rand c) ?st1 = (r, st2)"
    by (cases "Choose (cw_Scripts c) (cw_Rand c) ?st1")
  from Choose_maps [OF ch] cp have m2: "maps st2 = (maps st)(maps_next st := xs)"
    "maps_next st2 = Suc (maps_next st)" by simp_all
  show ?thesis
  proof (cases r)
    case (Inl p)
    then have "st' = st2" using assms ch by (simp add: Next_def case_prod_beta copy_vars_fresh)
    then show ?thesis using m2 by simp
  next
    case (Inr script)
    then have ev: "Eval_loop (Commands script) ?ctx \<lparr>uow_Readonly = Readonly script, Statements = []\<rparr> st2 = (res, st')"
      using assms ch by (simp add: Next_def case_prod_beta copy_vars_fresh Eval_def)
    have al: "allocated st2 (Vars ?ctx)" using m2 by (simp add: allocated_def)
    from Eval_loop_frame [OF al ev, of a] m2 show ?thesis by auto
  qed
qed

lemma Next_calls_frame:
  "maps_next st \<le> maps_next (Next_calls k c st)
   \<and> (a < maps_next st \<longrightarrow> maps (Next_calls k c st) a = maps st a)"
proof (induction k arbitrary: st)
  case 0
  show ?case by simp
next
  case (Suc k)
  obtain res st' where n: "Next c st = (res, st')" by (cases "Next c st")
  from Next_frame [OF n, of a] Suc.IH [of st'] n show ?case by auto
qed

subsection \<open>The loop of \<open>Eval\<close>\<close>

lemma Execute_error_uow: "Execute c ctx uow st = (Inr (Some err), uow1, st1) \<Longrightarrow> uow1 = uow"
  by (cases c) (auto simp: case_prod_beta split: sum.splits option.splits Value.splits prod.splits)

lemma Execute_Readonly: "Execute c ctx uow st = (r, uow1, st1) \<Longrightarrow> uow_Readonly uow1 = uow_Readonly uow"
  by (cases c) (auto simp: case_prod_beta split: sum.splits option.splits Value.splits prod.splits)

lemma accumulated_Readonly: "uow_Readonly (fst (accumulated cmds ctx uow st)) = uow_Readonly uow"
proof (induction cmds arbitrary: uow st)
  case Nil
  show ?case by simp
next
  case (Cons c cmds)
  obtain r uow1 st1 where ex: "Execute c ctx uow st = (r, uow1, st1)"
    by (cases "Execute c ctx uow st")
  show ?case using Cons.IH [of uow1 st1] Execute_Readonly [OF ex] ex by simp
qed

lemma Eval_loop_first_error:
  "k < length cmds \<Longrightarrow> (\<forall>j<k. reported cmds ctx uow st ! j = Inr None) \<Longrightarrow>
   reported cmds ctx uow st ! k = Inr (Some err) \<Longrightarrow>
   Eval_loop cmds ctx uow st =
     (Inr (fst (accumulated (take k cmds) ctx uow st), Some err),
      snd (accumulated (take (Suc k) cmds) ctx uow st))"
proof (induction cmds arbitrary: k uow st)
  case Nil
  then show ?case by simp
next
  case (Cons c cmds)
  obtain r uow1 st1 where ex: "Execute c ctx uow st = (r, uow1, st1)"
    by (cases "Execute c ctx uow st")
  show ?case
  proof (cases k)
    case 0
    then have r: "r = Inr (Some err)" using Cons.prems(3) ex by simp
    then have "uow1 = uow" using Execute_error_uow ex by blast
    then show ?thesis using 0 r ex by simp
  next
    case (Suc k')
    have r: "r = Inr None" using Cons.prems(2) [rule_format, of 0] Suc ex by simp
    have a: "k' < length cmds" using Cons.prems(1) Suc by simp
    have b: "\<forall>j<k'. reported cmds ctx uow1 st1 ! j = Inr None"
    proof (intro allI impI)
      fix j assume "j < k'"
      then show "reported cmds ctx uow1 st1 ! j = Inr None"
        using Cons.prems(2) [rule_format, of "Suc j"] Suc ex by simp
    qed
    have c: "reported cmds ctx uow1 st1 ! k' = Inr (Some err)"
      using Cons.prems(3) Suc ex by simp
    show ?thesis using Cons.IH [OF a b c] Suc r ex by simp
  qed
qed

lemma Eval_loop_no_error:
  "(\<forall>j<length cmds. reported cmds ctx uow st ! j = Inr None) \<Longrightarrow>
   Eval_loop cmds ctx uow st =
     (Inr (fst (accumulated cmds ctx uow st), None), snd (accumulated cmds ctx uow st))"
proof (induction cmds arbitrary: uow st)
  case Nil
  then show ?case by simp
next
  case (Cons c cmds)
  obtain r uow1 st1 where ex: "Execute c ctx uow st = (r, uow1, st1)"
    by (cases "Execute c ctx uow st")
  have r: "r = Inr None" using Cons.prems [rule_format, of 0] ex by simp
  have b: "\<forall>j<length cmds. reported cmds ctx uow1 st1 ! j = Inr None"
  proof (intro allI impI)
    fix j assume "j < length cmds"
    then show "reported cmds ctx uow1 st1 ! j = Inr None"
      using Cons.prems [rule_format, of "Suc j"] ex by simp
  qed
  show ?case using Cons.IH [OF b] r ex by simp
qed

lemma Execute_returns: "Vars ctx \<noteq> None \<Longrightarrow> \<exists>e. fst (Execute c ctx uow st) = Inr e"
  by (cases c) (auto simp: case_prod_beta split: sum.splits option.splits Value.splits prod.splits)

lemma reported_returns:
  "Vars ctx \<noteq> None \<Longrightarrow> j < length cmds \<Longrightarrow> \<exists>e. reported cmds ctx uow st ! j = Inr e"
proof (induction cmds arbitrary: j uow st)
  case Nil
  then show ?case by simp
next
  case (Cons c cmds)
  obtain r uow1 st1 where ex: "Execute c ctx uow st = (r, uow1, st1)"
    by (cases "Execute c ctx uow st")
  show ?case
  proof (cases j)
    case 0
    then show ?thesis using Execute_returns [OF Cons.prems(1), of c uow st] ex by simp
  next
    case (Suc j')
    then show ?thesis using Cons.IH [OF Cons.prems(1), of j' uow1 st1] Cons.prems(2) ex by simp
  qed
qed

lemma Eval_loop_first_panic:
  "k < length cmds \<Longrightarrow> (\<forall>j<k. reported cmds ctx uow st ! j = Inr None) \<Longrightarrow>
   reported cmds ctx uow st ! k = Inl p \<Longrightarrow> fst (Eval_loop cmds ctx uow st) = Inl p"
proof (induction cmds arbitrary: k uow st)
  case Nil
  then show ?case by simp
next
  case (Cons c cmds)
  obtain r uow1 st1 where ex: "Execute c ctx uow st = (r, uow1, st1)"
    by (cases "Execute c ctx uow st")
  show ?case
  proof (cases k)
    case 0
    then have "r = Inl p" using Cons.prems(3) ex by simp
    then show ?thesis using ex by simp
  next
    case (Suc k')
    have r: "r = Inr None" using Cons.prems(2) [rule_format, of 0] Suc ex by simp
    have a: "k' < length cmds" using Cons.prems(1) Suc by simp
    have b: "\<forall>j<k'. reported cmds ctx uow1 st1 ! j = Inr None"
    proof (intro allI impI)
      fix j assume "j < k'"
      then show "reported cmds ctx uow1 st1 ! j = Inr None"
        using Cons.prems(2) [rule_format, of "Suc j"] Suc ex by simp
    qed
    have c: "reported cmds ctx uow1 st1 ! k' = Inl p"
      using Cons.prems(3) Suc ex by simp
    show ?thesis using Cons.IH [OF a b c] r ex by simp
  qed
qed

lemma Eval_loop_returns:
  "Vars ctx \<noteq> None \<Longrightarrow> \<exists>res st1. Eval_loop cmds ctx uow st = (Inr res, st1)"
proof (induction cmds arbitrary: uow st)
  case Nil
  show ?case by simp
next
  case (Cons c cmds)
  obtain r uow1 st1 where ex: "Execute c ctx uow st = (r, uow1, st1)"
    by (cases "Execute c ctx uow st")
  from Execute_returns [OF Cons.prems, of c uow st] ex obtain e where r: "r = Inr e" by auto
  show ?case
  proof (cases e)
    case None
    then show ?thesis using Cons.IH [OF Cons.prems, of uow1 st1] r ex by simp
  next
    case (Some err)
    then show ?thesis using r ex by simp
  qed
qed

subsection \<open>Running the examples\<close>

lemmas run_simps = copy_vars_def make_map_def map_store_def deref_def store1_def store0_def
  Expression_Eval_def Const_def Fail_def Eval_def Next_def Choose_def

lemmas ex_simps = run_simps client0_def script_q_set_def ctx1_def NewScripts_def

lemma reported_q_q_sleep: "reported (Commands script_q_q_sleep) ctx1 \<lparr>uow_Readonly = True, Statements = []\<rparr> store1
   = [Inr None, Inr None, Inr (Some (SleepNotInteger (String ''ten''))), Inr None]"
  by (simp add: script_q_q_sleep_def ctx1_def run_simps)

lemma accumulated_q_q_sleep: "fst (accumulated (take 2 (Commands script_q_q_sleep)) ctx1 \<lparr>uow_Readonly = True, Statements = []\<rparr> store1)
   = \<lparr>uow_Readonly = True, Statements = [\<lparr>Query = ''q1'', Params = Some 1\<rparr>, \<lparr>Query = ''q2'', Params = Some 2\<rparr>]\<rparr>"
  by (simp add: script_q_q_sleep_def ctx1_def run_simps numeral_2_eq_2)

lemma reported_q_set: "reported (Commands script_q_set) ctx1 \<lparr>uow_Readonly = False, Statements = []\<rparr> store1
   = [Inr None, Inr None]"
  by (simp add: script_q_set_def ctx1_def run_simps)

lemma accumulated_q_set: "fst (accumulated (Commands script_q_set) ctx1 \<lparr>uow_Readonly = False, Statements = []\<rparr> store1)
   = \<lparr>uow_Readonly = False, Statements = [\<lparr>Query = ''q'', Params = Some 1\<rparr>]\<rparr>"
  by (simp add: script_q_set_def ctx1_def run_simps)

section \<open>The statements of the specification\<close>

text \<open>
  C1, as amended. For more than one script whose weights add up to \<open>W\<close> with
  \<open>0 < W < 2^63\<close>, so that the cumulative sum does not wrap: the total weight is \<open>W\<close>;
  \<open>Choose\<close> draws a point in \<open>[1, W]\<close>, the value of \<open>Intn\<close> plus one, and returns the
  script at the smallest index whose lookup entry is at least the point. The draw being
  uniform, every point of \<open>[1, W]\<close> has probability \<open>1/W\<close>; for each script \<open>i\<close>, exactly
  \<open>weight[i]\<close> of the \<open>W\<close> points select it, and it is selected with probability
  \<open>weight[i]/W\<close>.
\<close>

theorem Choose_weighted:
  assumes "S = NewScripts scripts" and "W = sum_list (map (unat \<circ> Weight) scripts)"
    and "1 < length scripts" and "0 < W" and "W < 2 ^ 63"
  shows "unat (TotalWeight S) = W
       \<and> (\<exists>d g. Intn (rands st r) (TotalWeight S) = Inr (d, g)
            \<and> unat d < W \<and> unat (d + 1) = Suc (unat d)
            \<and> SearchInts (WeightedLookup S) (d + 1) < length scripts
            \<and> d + 1 \<le>s WeightedLookup S ! SearchInts (WeightedLookup S) (d + 1)
            \<and> (\<forall>k<SearchInts (WeightedLookup S) (d + 1). \<not> d + 1 \<le>s WeightedLookup S ! k)
            \<and> Choose S r st =
                (Inr (scripts ! SearchInts (WeightedLookup S) (d + 1)), st\<lparr>rands := (rands st)(r := g)\<rparr>))
       \<and> (\<forall>p. 1 \<le> p \<and> p \<le> W \<longrightarrow>
            uniform_probability W (\<lambda>d. unat (of_nat d + 1 :: 64 word) = p) = 1 / real W)
       \<and> (\<forall>i<length scripts.
            card {p. 1 \<le> p \<and> p \<le> W \<and> SearchInts (WeightedLookup S) (of_nat p) = i}
              = unat (Weight (scripts ! i))
            \<and> uniform_probability W (\<lambda>d. SearchInts (WeightedLookup S) (of_nat d + 1) = i)
              = real (unat (Weight (scripts ! i))) / real W)"
proof -
  have W63: "sum_list (map (unat \<circ> Weight) scripts) < 2 ^ 63" using assms(2,5) by simp
  have T: "unat (TotalWeight S) = W" using unat_TotalWeight [OF W63] assms(1,2) by simp
  have pos: "\<not> TotalWeight S \<le>s 0"
  proof
    assume "TotalWeight S \<le>s 0"
    moreover have "unat (TotalWeight S) < 2 ^ 63" using T assms(5) by simp
    ultimately have "unat (TotalWeight S) \<le> unat (0 :: 64 word)"
      using sle_small [of "TotalWeight S" 0] by simp
    then show False using T assms(4) by simp
  qed
  from Intn_draw [OF pos, of "rands st r"] obtain d g where
    d: "Intn (rands st r) (TotalWeight S) = Inr (d, g)" "unat d < unat (TotalWeight S)"
       "unat (d + 1) = Suc (unat d)"
    by blast
  let ?p = "unat (d + 1)"
  let ?r = "SearchInts (WeightedLookup S) (d + 1)"
  have p: "1 \<le> ?p" "?p \<le> sum_list (map (unat \<circ> Weight) scripts)"
    using d(2,3) T assms(2) by simp_all
  have pt: "(of_nat ?p :: 64 word) = d + 1" by simp
  from SearchInts_segment [OF W63 p] pt assms(1)
  have seg: "?r < length scripts" "weight_upto scripts ?r < ?p" "?p \<le> weight_upto scripts (Suc ?r)"
    by simp_all
  have hit: "d + 1 \<le>s WeightedLookup S ! ?r"
    using point_sle_lookup [OF W63 seg(1) p(2)] seg(3) pt assms(1) by simp
  have least: "\<not> d + 1 \<le>s WeightedLookup S ! k" if "k < ?r" for k
  proof -
    have k: "k < length scripts" using that seg(1) by simp
    have "weight_upto scripts (Suc k) \<le> weight_upto scripts ?r"
      using that by (intro weight_upto_mono) simp
    then have "\<not> ?p \<le> weight_upto scripts (Suc k)" using seg(2) by simp
    then show ?thesis using point_sle_lookup [OF W63 k p(2)] pt assms(1) by simp
  qed
  have ch: "Choose S r st = (Inr (scripts ! ?r), st\<lparr>rands := (rands st)(r := g)\<rparr>)"
    using assms(1,3) d(1) seg(1) by (simp add: Choose_def Choose_at_def Scripts_NewScripts Let_def)
  have draw: "\<exists>d g. Intn (rands st r) (TotalWeight S) = Inr (d, g)
            \<and> unat d < W \<and> unat (d + 1) = Suc (unat d)
            \<and> SearchInts (WeightedLookup S) (d + 1) < length scripts
            \<and> d + 1 \<le>s WeightedLookup S ! SearchInts (WeightedLookup S) (d + 1)
            \<and> (\<forall>k<SearchInts (WeightedLookup S) (d + 1). \<not> d + 1 \<le>s WeightedLookup S ! k)
            \<and> Choose S r st =
                (Inr (scripts ! SearchInts (WeightedLookup S) (d + 1)), st\<lparr>rands := (rands st)(r := g)\<rparr>)"
    using d(1,2,3) T seg(1) hit least ch by (intro exI [of _ d] exI [of _ g]) simp
  have points: "\<forall>p. 1 \<le> p \<and> p \<le> W \<longrightarrow>
            uniform_probability W (\<lambda>d. unat (of_nat d + 1 :: 64 word) = p) = 1 / real W"
    using probability_of_point [of _ W] assms(5) by blast
  have count: "\<forall>i<length scripts.
            card {p. 1 \<le> p \<and> p \<le> W \<and> SearchInts (WeightedLookup S) (of_nat p) = i}
              = unat (Weight (scripts ! i))
            \<and> uniform_probability W (\<lambda>d. SearchInts (WeightedLookup S) (of_nat d + 1) = i)
              = real (unat (Weight (scripts ! i))) / real W"
    using card_points_of_script [OF W63] probability_of_script [OF W63] assms(1,2) by simp
  from T draw points count show ?thesis by blast
qed

text \<open>
  Weights 2, 3, 3: the second script is selected by 3 of the 8 points, with probability
  \<open>3/8\<close>; when \<open>Intn\<close> returns 0 the point is 1 and the first script is returned.
\<close>

theorem Choose_weighted_witness:
  "1 < length scripts_2_3_3
   \<and> sum_list (map (unat \<circ> Weight) scripts_2_3_3) = 8
   \<and> unat (TotalWeight (NewScripts scripts_2_3_3)) = 8
   \<and> card {p. 1 \<le> p \<and> p \<le> 8 \<and> SearchInts (WeightedLookup (NewScripts scripts_2_3_3)) (of_nat p) = 1} = 3
   \<and> uniform_probability 8 (\<lambda>d. SearchInts (WeightedLookup (NewScripts scripts_2_3_3)) (of_nat d + 1) = 1) = 3 / 8
   \<and> uniform_probability 8 (\<lambda>d. unat (of_nat d + 1 :: 64 word) = 5) = 1 / 8
   \<and> fst (Choose (NewScripts scripts_2_3_3) 0 store0) = Inr (scripts_2_3_3 ! 0)"
proof -
  have h2: "(8 :: nat) = sum_list (map (unat \<circ> Weight) scripts_2_3_3)"
    by (simp add: scripts_2_3_3_def)
  have h3: "1 < length scripts_2_3_3" by (simp add: scripts_2_3_3_def)
  have h4: "(0 :: nat) < 8" and h5: "(8 :: nat) < 2 ^ 63" by simp_all
  have i: "1 < length scripts_2_3_3" by (simp add: scripts_2_3_3_def)
  have w: "unat (Weight (scripts_2_3_3 ! 1)) = 3" by (simp add: scripts_2_3_3_def)
  note t = Choose_weighted [OF refl h2 h3 h4 h5, of store0 0]
  from t have c1: "unat (TotalWeight (NewScripts scripts_2_3_3)) = 8" by blast
  from t i have both: "card {p. 1 \<le> p \<and> p \<le> 8 \<and> SearchInts (WeightedLookup (NewScripts scripts_2_3_3)) (of_nat p) = 1}
      = unat (Weight (scripts_2_3_3 ! 1))
    \<and> uniform_probability 8 (\<lambda>d. SearchInts (WeightedLookup (NewScripts scripts_2_3_3)) (of_nat d + 1) = 1)
      = real (unat (Weight (scripts_2_3_3 ! 1))) / real (8 :: nat)" by blast
  have c2: "card {p. 1 \<le> p \<and> p \<le> 8 \<and> SearchInts (WeightedLookup (NewScripts scripts_2_3_3)) (of_nat p) = 1} = 3"
    using both unfolding w by blast
  have "uniform_probability 8 (\<lambda>d. SearchInts (WeightedLookup (NewScripts scripts_2_3_3)) (of_nat d + 1) = 1)
      = real 3 / real (8 :: nat)"
    using both unfolding w by blast
  then have c3: "uniform_probability 8 (\<lambda>d. SearchInts (WeightedLookup (NewScripts scripts_2_3_3)) (of_nat d + 1) = 1) = 3 / 8"
    by simp
  from t have "(1 :: nat) \<le> 5 \<and> (5 :: nat) \<le> 8 \<longrightarrow>
      uniform_probability 8 (\<lambda>d. unat (of_nat d + 1 :: 64 word) = 5) = 1 / real (8 :: nat)" by blast
  then have c4: "uniform_probability 8 (\<lambda>d. unat (of_nat d + 1 :: 64 word) = 5) = 1 / 8" by simp
  have c5: "fst (Choose (NewScripts scripts_2_3_3) 0 store0) = Inr (scripts_2_3_3 ! 0)"
    by (simp add: Choose_def Choose_at_def Intn_def NewScripts_def SearchInts_def Search_def
        Search_loop.simps word_sle_eq store0_def constant_generator_def scripts_2_3_3_def)
  from h2 h3 c1 c2 c3 c4 c5 show ?thesis by simp
qed

text \<open>
  C1 as stated fails when the cumulative sum wraps. The weights \<open>2^63 - 1\<close>, \<open>2^63 - 1\<close>
  and 3 give the lookup table \<open>[2^63 - 1, -2, 1]\<close> and the total weight 1. The only point is
  1; the search returns index 2, although the entry at index 0 is already at least 1.
\<close>

theorem Choose_weighted_counterexample:
  "0 \<le>s Weight (scripts_wrapping ! 0) \<and> 0 \<le>s Weight (scripts_wrapping ! 1) \<and> 0 \<le>s Weight (scripts_wrapping ! 2)
   \<and> 0 <s TotalWeight (NewScripts scripts_wrapping)
   \<and> TotalWeight (NewScripts scripts_wrapping) = 1
   \<and> WeightedLookup (NewScripts scripts_wrapping) = [9223372036854775807, - 2, 1]
   \<and> SearchInts (WeightedLookup (NewScripts scripts_wrapping)) 1 = 2
   \<and> 1 \<le>s WeightedLookup (NewScripts scripts_wrapping) ! 0
   \<and> Choose_at (NewScripts scripts_wrapping) 1 = Inr (scripts_wrapping ! 2)"
  by (simp add: scripts_wrapping_def NewScripts_def Choose_at_def SearchInts_def Search_def
      Search_loop.simps word_sle_eq word_sless_alt)

text \<open>
  C2. Scripts of weights 2, 3, 3 in definition order get the lookup table \<open>[2, 5, 8]\<close> and
  the total weight 8. A point of 2 selects index 0, a point of 3 index 1, a point of 8
  index 2 and a point of 1 index 0: a point on a cumulative boundary belongs to the
  lower-indexed script. \<open>Choose\<close> draws these points, and returns these scripts, when
  \<open>Intn\<close> returns 1, 2, 7 and 0.
\<close>

theorem weights_2_3_3_boundaries:
  "WeightedLookup (NewScripts [a\<lparr>Weight := 2\<rparr>, b\<lparr>Weight := 3\<rparr>, c\<lparr>Weight := 3\<rparr>]) = [2, 5, 8]
   \<and> TotalWeight (NewScripts [a\<lparr>Weight := 2\<rparr>, b\<lparr>Weight := 3\<rparr>, c\<lparr>Weight := 3\<rparr>]) = 8
   \<and> SearchInts [2, 5, 8] 2 = 0 \<and> SearchInts [2, 5, 8] 3 = 1
   \<and> SearchInts [2, 5, 8] 8 = 2 \<and> SearchInts [2, 5, 8] 1 = 0
   \<and> Choose_at (NewScripts [a\<lparr>Weight := 2\<rparr>, b\<lparr>Weight := 3\<rparr>, c\<lparr>Weight := 3\<rparr>]) 2 = Inr (a\<lparr>Weight := 2\<rparr>)
   \<and> Choose_at (NewScripts [a\<lparr>Weight := 2\<rparr>, b\<lparr>Weight := 3\<rparr>, c\<lparr>Weight := 3\<rparr>]) 3 = Inr (b\<lparr>Weight := 3\<rparr>)
   \<and> Choose_at (NewScripts [a\<lparr>Weight := 2\<rparr>, b\<lparr>Weight := 3\<rparr>, c\<lparr>Weight := 3\<rparr>]) 8 = Inr (c\<lparr>Weight := 3\<rparr>)
   \<and> Choose_at (NewScripts [a\<lparr>Weight := 2\<rparr>, b\<lparr>Weight := 3\<rparr>, c\<lparr>Weight := 3\<rparr>]) 1 = Inr (a\<lparr>Weight := 2\<rparr>)
   \<and> (Intn (rands st r) 8 = Inr (1, g) \<longrightarrow>
        Choose (NewScripts [a\<lparr>Weight := 2\<rparr>, b\<lparr>Weight := 3\<rparr>, c\<lparr>Weight := 3\<rparr>]) r st
          = (Inr (a\<lparr>Weight := 2\<rparr>), st\<lparr>rands := (rands st)(r := g)\<rparr>))
   \<and> (Intn (rands st r) 8 = Inr (2, g) \<longrightarrow>
        Choose (NewScripts [a\<lparr>Weight := 2\<rparr>, b\<lparr>Weight := 3\<rparr>, c\<lparr>Weight := 3\<rparr>]) r st
          = (Inr (b\<lparr>Weight := 3\<rparr>), st\<lparr>rands := (rands st)(r := g)\<rparr>))
   \<and> (Intn (rands st r) 8 = Inr (7, g) \<longrightarrow>
        Choose (NewScripts [a\<lparr>Weight := 2\<rparr>, b\<lparr>Weight := 3\<rparr>, c\<lparr>Weight := 3\<rparr>]) r st
          = (Inr (c\<lparr>Weight := 3\<rparr>), st\<lparr>rands := (rands st)(r := g)\<rparr>))
   \<and> (Intn (rands st r) 8 = Inr (0, g) \<longrightarrow>
        Choose (NewScripts [a\<lparr>Weight := 2\<rparr>, b\<lparr>Weight := 3\<rparr>, c\<lparr>Weight := 3\<rparr>]) r st
          = (Inr (a\<lparr>Weight := 2\<rparr>), st\<lparr>rands := (rands st)(r := g)\<rparr>))"
  by (simp add: NewScripts_def Choose_def Choose_at_def SearchInts_def Search_def Search_loop.simps word_sle_eq)

text \<open>The four draws, each on a generator whose \<open>Intn\<close> returns that value.\<close>

theorem weights_2_3_3_boundaries_witness:
  "fst (Choose (NewScripts scripts_2_3_3) 0 (store_drawing 1)) = Inr (scripts_2_3_3 ! 0)
   \<and> fst (Choose (NewScripts scripts_2_3_3) 0 (store_drawing 2)) = Inr (scripts_2_3_3 ! 1)
   \<and> fst (Choose (NewScripts scripts_2_3_3) 0 (store_drawing 7)) = Inr (scripts_2_3_3 ! 2)
   \<and> fst (Choose (NewScripts scripts_2_3_3) 0 (store_drawing 0)) = Inr (scripts_2_3_3 ! 0)"
proof -
  let ?a = "\<lparr>Readonly = True, Weight = 2, Commands = [QueryCommand ''a'']\<rparr>"
  let ?b = "\<lparr>Readonly = True, Weight = 3, Commands = [QueryCommand ''b'']\<rparr>"
  let ?c = "\<lparr>Readonly = False, Weight = 3, Commands = [QueryCommand ''c'']\<rparr>"
  have draw: "Intn (rands (store_drawing d) 0) 8 =
      Inr (of_nat (d mod 8), Generator 1 (\<lambda>_. 0) (\<lambda>_ _. d) (\<lambda>_ _. 0))" for d
    by (simp add: Intn_def store_drawing_def store0_def constant_generator_def word_sle_eq)
  note t = weights_2_3_3_boundaries [of ?a ?b ?c]
  from t [of "store_drawing 1" 0 "Generator 1 (\<lambda>_. 0) (\<lambda>_ _. 1) (\<lambda>_ _. 0)"] draw [of 1]
  have c1: "fst (Choose (NewScripts scripts_2_3_3) 0 (store_drawing 1)) = Inr (scripts_2_3_3 ! 0)"
    by (simp add: scripts_2_3_3_def)
  from t [of "store_drawing 2" 0 "Generator 1 (\<lambda>_. 0) (\<lambda>_ _. 2) (\<lambda>_ _. 0)"] draw [of 2]
  have c2: "fst (Choose (NewScripts scripts_2_3_3) 0 (store_drawing 2)) = Inr (scripts_2_3_3 ! 1)"
    by (simp add: scripts_2_3_3_def)
  from t [of "store_drawing 7" 0 "Generator 1 (\<lambda>_. 0) (\<lambda>_ _. 7) (\<lambda>_ _. 0)"] draw [of 7]
  have c3: "fst (Choose (NewScripts scripts_2_3_3) 0 (store_drawing 7)) = Inr (scripts_2_3_3 ! 2)"
    by (simp add: scripts_2_3_3_def)
  from t [of "store_drawing 0" 0 "Generator 1 (\<lambda>_. 0) (\<lambda>_ _. 0) (\<lambda>_ _. 0)"] draw [of 0]
  have c4: "fst (Choose (NewScripts scripts_2_3_3) 0 (store_drawing 0)) = Inr (scripts_2_3_3 ! 0)"
    by (simp add: scripts_2_3_3_def)
  from c1 c2 c3 c4 show ?thesis by simp
qed

text \<open>
  C3. When there is exactly one script, \<open>Choose\<close> returns it and leaves the store, and with
  it the generator, as it was: no draw is made, whatever the weight.
\<close>

theorem Choose_single_script:
  "Scripts s = [script] \<Longrightarrow> Choose s r st = (Inr script, st)"
  by (simp add: Choose_def)

text \<open>
  The single script has weight 0 here, so that a draw would have panicked.
\<close>

theorem Choose_single_script_witness:
  "Scripts \<lparr>Scripts = [\<lparr>Readonly = True, Weight = 0, Commands = []\<rparr>], WeightedLookup = [0], TotalWeight = 0\<rparr>
     = [\<lparr>Readonly = True, Weight = 0, Commands = []\<rparr>]
   \<and> Choose \<lparr>Scripts = [\<lparr>Readonly = True, Weight = 0, Commands = []\<rparr>], WeightedLookup = [0], TotalWeight = 0\<rparr> 0 store0
     = (Inr \<lparr>Readonly = True, Weight = 0, Commands = []\<rparr>, store0)"
  using Choose_single_script [of "\<lparr>Scripts = [\<lparr>Readonly = True, Weight = 0, Commands = []\<rparr>], WeightedLookup = [0], TotalWeight = 0\<rparr>"
      "\<lparr>Readonly = True, Weight = 0, Commands = []\<rparr>" 0 store0]
  by simp

text \<open>
  C4, as amended. \<open>Eval\<close> starts from a unit of work with the script's readonly flag and no
  statements and runs the commands in order. If command \<open>k\<close> (counting from 0) is the first
  to return an error, \<open>Eval\<close> returns the unit of work accumulated by the \<open>k\<close> commands
  before it together with that error; if every command returns no error, \<open>Eval\<close> returns
  the unit of work accumulated by all of them and no error. When the scope of the context
  is not the nil map, every command returns and so does \<open>Eval\<close>: one of the two cases
  applies. A command that panics makes \<open>Eval\<close> panic with it.
\<close>

theorem Eval_stops_at_first_error:
  assumes "uow0 = \<lparr>uow_Readonly = Readonly s, Statements = []\<rparr>"
  shows "(\<forall>k err. k < length (Commands s) \<longrightarrow>
            (\<forall>j<k. reported (Commands s) ctx uow0 st ! j = Inr None) \<longrightarrow>
            reported (Commands s) ctx uow0 st ! k = Inr (Some err) \<longrightarrow>
            Eval s ctx st =
              (Inr (fst (accumulated (take k (Commands s)) ctx uow0 st), Some err),
               snd (accumulated (take (Suc k) (Commands s)) ctx uow0 st))
            \<and> uow_Readonly (fst (accumulated (take k (Commands s)) ctx uow0 st)) = Readonly s)
       \<and> ((\<forall>j<length (Commands s). reported (Commands s) ctx uow0 st ! j = Inr None) \<longrightarrow>
            Eval s ctx st =
              (Inr (fst (accumulated (Commands s) ctx uow0 st), None),
               snd (accumulated (Commands s) ctx uow0 st))
            \<and> uow_Readonly (fst (accumulated (Commands s) ctx uow0 st)) = Readonly s)
       \<and> (\<forall>k p. k < length (Commands s) \<longrightarrow>
            (\<forall>j<k. reported (Commands s) ctx uow0 st ! j = Inr None) \<longrightarrow>
            reported (Commands s) ctx uow0 st ! k = Inl p \<longrightarrow>
            fst (Eval s ctx st) = Inl p)
       \<and> (Vars ctx \<noteq> None \<longrightarrow>
            (\<forall>j<length (Commands s). \<exists>e. reported (Commands s) ctx uow0 st ! j = Inr e)
            \<and> (\<exists>res st1. Eval s ctx st = (Inr res, st1)))"
  using assms Eval_loop_first_error [of _ "Commands s" ctx uow0 st] Eval_loop_no_error [of "Commands s" ctx uow0 st]
    Eval_loop_first_panic [of _ "Commands s" ctx uow0 st]
    reported_returns [of ctx _ "Commands s" uow0 st] Eval_loop_returns [of ctx "Commands s" uow0 st]
  by (simp add: Eval_def accumulated_Readonly)

text \<open>
  A script whose third command fails returns the statements of the first two; a script
  whose commands all succeed returns them all; a \<open>Set\<close> command on the nil map panics.
\<close>

theorem Eval_stops_at_first_error_witness:
  "fst (Eval script_q_q_sleep ctx1 store1) =
     Inr (\<lparr>uow_Readonly = True, Statements = [\<lparr>Query = ''q1'', Params = Some 1\<rparr>, \<lparr>Query = ''q2'', Params = Some 2\<rparr>]\<rparr>,
          Some (SleepNotInteger (String ''ten'')))
   \<and> fst (Eval script_q_set ctx1 store1) =
     Inr (\<lparr>uow_Readonly = False, Statements = [\<lparr>Query = ''q'', Params = Some 1\<rparr>]\<rparr>, None)
   \<and> fst (Eval script_set ctx_nil store0) = Inl NilMapAssignment"
proof -
  let ?u1 = "\<lparr>uow_Readonly = True, Statements = []\<rparr>"
  let ?u2 = "\<lparr>uow_Readonly = False, Statements = []\<rparr>"
  have h1: "?u1 = \<lparr>uow_Readonly = Readonly script_q_q_sleep, Statements = []\<rparr>"
    by (simp add: script_q_q_sleep_def)
  have h2: "?u2 = \<lparr>uow_Readonly = Readonly script_q_set, Statements = []\<rparr>"
    by (simp add: script_q_set_def)
  have k: "2 < length (Commands script_q_q_sleep)" by (simp add: script_q_q_sleep_def)
  have pre: "\<forall>j<2. reported (Commands script_q_q_sleep) ctx1 ?u1 store1 ! j = Inr None"
    by (simp add: reported_q_q_sleep less_2_cases_iff)
  have at: "reported (Commands script_q_q_sleep) ctx1 ?u1 store1 ! 2 = Inr (Some (SleepNotInteger (String ''ten'')))"
    by (simp add: reported_q_q_sleep)
  have len: "length (Commands script_q_set) = 2" by (simp add: script_q_set_def)
  have all: "\<forall>j<length (Commands script_q_set). reported (Commands script_q_set) ctx1 ?u2 store1 ! j = Inr None"
    by (simp add: reported_q_set len less_2_cases_iff)
  note t1 = Eval_stops_at_first_error [OF h1, of ctx1 store1, THEN conjunct1, THEN spec [of _ 2],
      THEN spec [of _ "SleepNotInteger (String ''ten'')"]]
  from t1 k pre at
  have "Eval script_q_q_sleep ctx1 store1 =
      (Inr (fst (accumulated (take 2 (Commands script_q_q_sleep)) ctx1 ?u1 store1), Some (SleepNotInteger (String ''ten''))),
       snd (accumulated (take (Suc 2) (Commands script_q_q_sleep)) ctx1 ?u1 store1))"
    by blast
  then have "fst (Eval script_q_q_sleep ctx1 store1) =
      Inr (fst (accumulated (take 2 (Commands script_q_q_sleep)) ctx1 ?u1 store1), Some (SleepNotInteger (String ''ten'')))"
    by simp
  moreover
  note t2 = Eval_stops_at_first_error [OF h2, of ctx1 store1, THEN conjunct2, THEN conjunct1]
  from t2 all
  have "Eval script_q_set ctx1 store1 =
      (Inr (fst (accumulated (Commands script_q_set) ctx1 ?u2 store1), None),
       snd (accumulated (Commands script_q_set) ctx1 ?u2 store1))"
    by blast
  then have "fst (Eval script_q_set ctx1 store1) =
      Inr (fst (accumulated (Commands script_q_set) ctx1 ?u2 store1), None)"
    by simp
  moreover
  have h3: "\<lparr>uow_Readonly = False, Statements = []\<rparr> = \<lparr>uow_Readonly = Readonly script_set, Statements = []\<rparr>"
    by (simp add: script_set_def)
  have k3: "0 < length (Commands script_set)" by (simp add: script_set_def)
  have p3: "reported (Commands script_set) ctx_nil ?u2 store0 ! 0 = Inl NilMapAssignment"
    by (simp add: script_set_def ctx_nil_def run_simps)
  note t3 = Eval_stops_at_first_error [OF h3, of ctx_nil store0, THEN conjunct2, THEN conjunct2,
      THEN conjunct1, THEN spec [of _ 0], THEN spec [of _ NilMapAssignment]]
  from t3 k3 p3 have "fst (Eval script_set ctx_nil store0) = Inl NilMapAssignment" by simp
  ultimately show ?thesis by (simp add: accumulated_q_q_sleep accumulated_q_set)
qed

text \<open>
  C4 as stated fails for a context whose scope is the nil map: the expression of the
  \<open>Set\<close> command succeeds, the assignment to the nil map panics, and \<open>Eval\<close> returns
  neither a unit of work nor an error.
\<close>

theorem Eval_nil_scope_counterexample:
  "reported (Commands script_set) ctx_nil \<lparr>uow_Readonly = Readonly script_set, Statements = []\<rparr> store0
     = [Inl NilMapAssignment]
   \<and> fst (Eval script_set ctx_nil store0) = Inl NilMapAssignment"
  by (simp add: script_set_def ctx_nil_def run_simps)

text \<open>
  C5. After any number of calls of \<open>Next\<close> on a client, the client's baseline mapping holds
  what it held before the first call. The next call evaluates the chosen script in a
  context whose variables are a map made by that call, distinct from the baseline, and
  holding the baseline bindings when the evaluation starts: no binding that a \<open>Set\<close>
  command made during an earlier call is visible.
\<close>

theorem Next_starts_from_baseline:
  assumes "allocated st (cw_Variables c)"
  shows "deref (Next_calls k c st) (cw_Variables c) = deref st (cw_Variables c)
       \<and> cw_Variables c \<noteq> Some (maps_next (Next_calls k c st))
       \<and> (\<forall>script st2.
            Choose (cw_Scripts c) (cw_Rand c) (snd (copy_vars (cw_Variables c) (Next_calls k c st)))
              = (Inr script, st2) \<longrightarrow>
            Next c (Next_calls k c st) =
              Eval script \<lparr>Stderr = cw_Stderr c, Vars = Some (maps_next (Next_calls k c st)),
                           Rand = cw_Rand c\<rparr> st2
            \<and> map_of (deref st2 (Some (maps_next (Next_calls k c st)))) = map_of (deref st (cw_Variables c)))"
proof -
  let ?st = "Next_calls k c st"
  have base: "deref ?st (cw_Variables c) = deref st (cw_Variables c)"
    using assms Next_calls_frame [of st k c] by (auto simp: deref_def allocated_def split: option.splits)
  have al: "allocated ?st (cw_Variables c)"
    using assms Next_calls_frame [of st k c] by (auto intro: allocated_mono)
  then have fresh: "cw_Variables c \<noteq> Some (maps_next ?st)" by (auto simp: allocated_def)
  obtain xs where cp: "snd (copy_vars (cw_Variables c) ?st) =
      ?st\<lparr>maps := (maps ?st)(maps_next ?st := xs), maps_next := Suc (maps_next ?st)\<rparr>"
    and xs: "map_of xs = map_of (deref ?st (cw_Variables c))"
    using copy_vars_store [of "cw_Variables c" ?st] al by blast
  have "Next c ?st = Eval script \<lparr>Stderr = cw_Stderr c, Vars = Some (maps_next ?st), Rand = cw_Rand c\<rparr> st2
        \<and> map_of (deref st2 (Some (maps_next ?st))) = map_of (deref st (cw_Variables c))"
    if ch: "Choose (cw_Scripts c) (cw_Rand c) (snd (copy_vars (cw_Variables c) ?st)) = (Inr script, st2)"
    for script st2
  proof -
    from Choose_maps [OF ch] cp have "maps st2 (maps_next ?st) = xs" by simp
    then show ?thesis using ch xs base
      by (simp add: Next_def case_prod_beta copy_vars_fresh deref_def)
  qed
  with base fresh show ?thesis by blast
qed

text \<open>
  The client's script queries and then sets \<open>scale\<close> to 5. The first call leaves 5 in its
  own scope (the map at address 1); the second call still queries with the baseline value 1.
\<close>

theorem Next_starts_from_baseline_witness:
  "allocated store1 (cw_Variables client0)
   \<and> deref (Next_calls 1 client0 store1) (cw_Variables client0) = [(''scale'', Int64 1)]
   \<and> map_of (maps (Next_calls 1 client0 store1) 1) ''scale'' = Some (Int64 5)
   \<and> map_of (maps (snd (Choose (cw_Scripts client0) (cw_Rand client0)
        (snd (copy_vars (cw_Variables client0) (Next_calls 1 client0 store1))))) 3) ''scale'' = Some (Int64 1)
   \<and> fst (Next client0 (Next_calls 1 client0 store1)) =
        Inr (\<lparr>uow_Readonly = False, Statements = [\<lparr>Query = ''q'', Params = Some 4\<rparr>]\<rparr>, None)
   \<and> map_of (maps (snd (Next client0 (Next_calls 1 client0 store1))) 4) ''scale'' = Some (Int64 1)"
proof -
  let ?st = "Next_calls 1 client0 store1"
  let ?ch = "Choose (cw_Scripts client0) (cw_Rand client0) (snd (copy_vars (cw_Variables client0) ?st))"
  have al: "allocated store1 (cw_Variables client0)"
    by (simp add: allocated_def client0_def store1_def)
  have d: "deref store1 (cw_Variables client0) = [(''scale'', Int64 1)]"
    by (simp add: deref_def client0_def store1_def)
  have n: "maps_next ?st = 3" by (simp add: ex_simps)
  have ch: "?ch = (Inr script_q_set, snd ?ch)"
    by (simp add: Choose_def client0_def Scripts_NewScripts)
  note t = Next_starts_from_baseline [OF al, of 1]
  from t d have c1: "deref ?st (cw_Variables client0) = [(''scale'', Int64 1)]" by simp
  from t ch have "map_of (deref (snd ?ch) (Some (maps_next ?st))) = map_of (deref store1 (cw_Variables client0))"
    by blast
  then have c2: "map_of (maps (snd ?ch) 3) ''scale'' = Some (Int64 1)"
    using n d by (simp add: deref_def)
  have c3: "map_of (maps ?st 1) ''scale'' = Some (Int64 5)" by (simp add: ex_simps)
  have c4: "fst (Next client0 ?st) =
        Inr (\<lparr>uow_Readonly = False, Statements = [\<lparr>Query = ''q'', Params = Some 4\<rparr>]\<rparr>, None)"
    by (simp add: ex_simps)
  have c5: "map_of (maps (snd (Next client0 ?st)) 4) ''scale'' = Some (Int64 1)"
    by (simp add: ex_simps)
  from al c1 c2 c3 c4 c5 show ?thesis by blast
qed

text \<open>
  C6, as amended. \<open>NewClient\<close> makes no copy: the client's \<open>Variables\<close> is the very reference
  the workload holds, and no map is made or written.
\<close>

theorem NewClient_shares_Variables:
  "cw_Variables (fst (NewClient NewSource s st)) = wl_Variables s
   \<and> maps (snd (NewClient NewSource s st)) = maps st
   \<and> maps_next (snd (NewClient NewSource s st)) = maps_next st"
  by (simp add: NewClient_def rand_New_def Int63_def Let_def)

text \<open>
  C6 as stated fails: the client's reference is not distinct from the workload's, and a
  write through the workload's reference after \<open>NewClient\<close> shows through the client's.
\<close>

theorem NewClient_copy_counterexample:
  "\<not> cw_Variables (fst (NewClient zero_source \<lparr>wl_Variables = Some 0, wl_Scripts = NewScripts [], wl_Rand = 0\<rparr> store1))
       \<noteq> wl_Variables \<lparr>wl_Variables = Some 0, wl_Scripts = NewScripts [], wl_Rand = 0\<rparr>
   \<and> deref (map_store 0 ''scale'' (Int64 100)
        (snd (NewClient zero_source \<lparr>wl_Variables = Some 0, wl_Scripts = NewScripts [], wl_Rand = 0\<rparr> store1)))
        (cw_Variables (fst (NewClient zero_source \<lparr>wl_Variables = Some 0, wl_Scripts = NewScripts [], wl_Rand = 0\<rparr> store1)))
      = [(''scale'', Int64 100)]"
  by (simp add: NewClient_def rand_New_def Int63_def Let_def run_simps)

text \<open>
  C7. A \<open>Sleep\<close> command evaluates its duration expression. When the evaluation succeeds
  with a value that is not an \<open>int64\<close>, the command fails with the type-mismatch error that
  carries that value; when the evaluation fails, the command returns that very error. In
  both cases the unit of work is left as it was.
\<close>

theorem Sleep_errors:
  "(Expression_Eval Duration ctx st = (Inr v, st1) \<longrightarrow> (\<forall>n. v \<noteq> Int64 n) \<longrightarrow>
      Execute (SleepCommand Duration Unit) ctx uow st = (Inr (Some (SleepNotInteger v)), uow, st1))
   \<and> (Expression_Eval Duration ctx st = (Inl err, st1) \<longrightarrow>
      Execute (SleepCommand Duration Unit) ctx uow st = (Inr (Some err), uow, st1))"
  by (cases v) simp_all

text \<open>
  A duration that evaluates to the string \<open>ten\<close>, and a duration whose evaluation fails.
\<close>

theorem Sleep_errors_witness:
  "Execute (SleepCommand (Const (String ''ten'')) 1000) ctx1 \<lparr>uow_Readonly = False, Statements = []\<rparr> store1
     = (Inr (Some (SleepNotInteger (String ''ten''))), \<lparr>uow_Readonly = False, Statements = []\<rparr>, store1)
   \<and> Execute (SleepCommand (Fail (ExprError ''undefined variable'')) 1000) ctx1
        \<lparr>uow_Readonly = False, Statements = []\<rparr> store1
     = (Inr (Some (ExprError ''undefined variable'')), \<lparr>uow_Readonly = False, Statements = []\<rparr>, store1)"
proof -
  let ?uow = "\<lparr>uow_Readonly = False, Statements = []\<rparr>"
  have e1: "Expression_Eval (Const (String ''ten'')) ctx1 store1 = (Inr (String ''ten''), store1)"
    by (simp add: Expression_Eval_def Const_def store1_def ctx1_def fun_eq_iff)
  have e2: "Expression_Eval (Fail (ExprError ''undefined variable'')) ctx1 store1
      = (Inl (ExprError ''undefined variable''), store1)"
    by (simp add: Expression_Eval_def Fail_def store1_def ctx1_def fun_eq_iff)
  have n: "\<forall>n. String ''ten'' \<noteq> Int64 n" by simp
  from Sleep_errors [of "Const (String ''ten'')" ctx1 store1 "String ''ten''" store1 1000 ?uow] e1 n
  have "Execute (SleepCommand (Const (String ''ten'')) 1000) ctx1 ?uow store1
     = (Inr (Some (SleepNotInteger (String ''ten''))), ?uow, store1)" by blast
  moreover
  from Sleep_errors [of "Fail (ExprError ''undefined variable'')" ctx1 store1 _ store1
      1000 ?uow "ExprError ''undefined variable''"] e2
  have "Execute (SleepCommand (Fail (ExprError ''undefined variable'')) 1000) ctx1 ?uow store1
     = (Inr (Some (ExprError ''undefined variable'')), ?uow, store1)" by blast
  ultimately show ?thesis by simp
qed

text \<open>
  C8. A \<open>Query\<close> command returns no error and appends exactly one statement, whose
  parameters are a map made by the command, distinct from the scope, holding the bindings
  of the scope at that moment. The command leaves the scope as it was, and whatever
  commands run later in the evaluation, \<open>Set\<close> commands included, the recorded parameters
  keep those bindings.
\<close>

theorem Query_snapshots_scope:
  assumes "allocated st (Vars ctx)"
  shows "\<exists>st1. Execute (QueryCommand q) ctx uow st =
            (Inr None, uow\<lparr>Statements := Statements uow @ [\<lparr>Query = q, Params = Some (maps_next st)\<rparr>]\<rparr>, st1)
          \<and> Vars ctx \<noteq> Some (maps_next st)
          \<and> map_of (maps st1 (maps_next st)) = map_of (deref st (Vars ctx))
          \<and> deref st1 (Vars ctx) = deref st (Vars ctx)
          \<and> (\<forall>cmds uow1. map_of (maps (snd (Eval_loop cmds ctx uow1 st1)) (maps_next st))
                            = map_of (deref st (Vars ctx)))"
proof -
  obtain xs where cp: "snd (copy_vars (Vars ctx) st) =
      st\<lparr>maps := (maps st)(maps_next st := xs), maps_next := Suc (maps_next st)\<rparr>"
    and xs: "map_of xs = map_of (deref st (Vars ctx))"
    using copy_vars_store [of "Vars ctx" st] assms by blast
  let ?st1 = "snd (copy_vars (Vars ctx) st)"
  have ex: "Execute (QueryCommand q) ctx uow st =
      (Inr None, uow\<lparr>Statements := Statements uow @ [\<lparr>Query = q, Params = Some (maps_next st)\<rparr>]\<rparr>, ?st1)"
    by (simp add: case_prod_beta copy_vars_fresh)
  have fresh: "Vars ctx \<noteq> Some (maps_next st)" using assms by (auto simp: allocated_def)
  have snap: "map_of (maps ?st1 (maps_next st)) = map_of (deref st (Vars ctx))"
    using cp xs by simp
  have same: "deref ?st1 (Vars ctx) = deref st (Vars ctx)"
    using cp fresh by (auto simp: deref_def split: option.splits)
  have al: "allocated ?st1 (Vars ctx)" using assms cp by (auto simp: allocated_def split: option.splits)
  have later: "map_of (maps (snd (Eval_loop cmds ctx uow1 ?st1)) (maps_next st)) = map_of (deref st (Vars ctx))"
    for cmds uow1
  proof -
    obtain res st2 where ev: "Eval_loop cmds ctx uow1 ?st1 = (res, st2)"
      by (cases "Eval_loop cmds ctx uow1 ?st1")
    from Eval_loop_frame [OF al ev, of "maps_next st"] cp fresh
    have "maps st2 (maps_next st) = maps ?st1 (maps_next st)" by simp
    then show ?thesis using ev snap by simp
  qed
  from ex fresh snap same later show ?thesis by blast
qed

text \<open>
  After a query, setting \<open>scale\<close> to 7 changes the scope (address 0) and not the recorded
  parameters (address 1).
\<close>

theorem Query_snapshots_scope_witness:
  "allocated store1 (Vars ctx1)
   \<and> fst (Execute (QueryCommand ''q'') ctx1 \<lparr>uow_Readonly = False, Statements = []\<rparr> store1) = Inr None
   \<and> map_of (maps (snd (snd (Execute (QueryCommand ''q'') ctx1 \<lparr>uow_Readonly = False, Statements = []\<rparr> store1))) 1)
        ''scale'' = Some (Int64 1)
   \<and> map_of (maps (snd (Eval_loop [SetCommand ''scale'' (Const (Int64 7))] ctx1 \<lparr>uow_Readonly = False, Statements = []\<rparr>
        (snd (snd (Execute (QueryCommand ''q'') ctx1 \<lparr>uow_Readonly = False, Statements = []\<rparr> store1))))) 1)
        ''scale'' = Some (Int64 1)
   \<and> map_of (maps (snd (Eval_loop [SetCommand ''scale'' (Const (Int64 7))] ctx1 \<lparr>uow_Readonly = False, Statements = []\<rparr>
        (snd (snd (Execute (QueryCommand ''q'') ctx1 \<lparr>uow_Readonly = False, Statements = []\<rparr> store1))))) 0)
        ''scale'' = Some (Int64 7)"
proof -
  let ?u = "\<lparr>uow_Readonly = False, Statements = []\<rparr>"
  let ?st1 = "snd (snd (Execute (QueryCommand ''q'') ctx1 ?u store1))"
  have al: "allocated store1 (Vars ctx1)" by (simp add: allocated_def ctx1_def store1_def)
  have n: "maps_next store1 = 1" by (simp add: store1_def)
  have d: "map_of (deref store1 (Vars ctx1)) ''scale'' = Some (Int64 1)"
    by (simp add: deref_def ctx1_def store1_def)
  from Query_snapshots_scope [OF al, of "''q''" ?u] obtain st1 where
    ex: "Execute (QueryCommand ''q'') ctx1 ?u store1 =
           (Inr None, ?u\<lparr>Statements := Statements ?u @ [\<lparr>Query = ''q'', Params = Some (maps_next store1)\<rparr>]\<rparr>, st1)"
    and snap: "map_of (maps st1 (maps_next store1)) = map_of (deref store1 (Vars ctx1))"
    and later: "\<forall>cmds uow1. map_of (maps (snd (Eval_loop cmds ctx1 uow1 st1)) (maps_next store1))
                  = map_of (deref store1 (Vars ctx1))"
    by blast
  have st1: "?st1 = st1" using ex by simp
  have c1: "fst (Execute (QueryCommand ''q'') ctx1 ?u store1) = Inr None" using ex by simp
  have c2: "map_of (maps ?st1 1) ''scale'' = Some (Int64 1)" using snap st1 n d by simp
  have c3: "map_of (maps (snd (Eval_loop [SetCommand ''scale'' (Const (Int64 7))] ctx1 ?u ?st1)) 1) ''scale''
      = Some (Int64 1)"
    using later [rule_format, of "[SetCommand ''scale'' (Const (Int64 7))]" ?u] st1 n d by simp
  have c4: "map_of (maps (snd (Eval_loop [SetCommand ''scale'' (Const (Int64 7))] ctx1 ?u ?st1)) 0) ''scale''
      = Some (Int64 7)"
    by (simp add: ex_simps)
  from al c1 c2 c3 c4 show ?thesis by blast
qed

text \<open>
  C9. For more than one script and a positive total weight, the search returns an index
  below the number of scripts for every point up to the total weight, because the last
  entry of the lookup table is the total weight; the point that \<open>Choose\<close> draws is such a
  point, so \<open>Choose\<close> returns a script and does not panic.
\<close>

theorem Choose_index_in_bounds:
  assumes "1 < length scripts" and "0 <s TotalWeight (NewScripts scripts)"
  shows "(\<forall>point. point \<le>s TotalWeight (NewScripts scripts) \<longrightarrow>
            SearchInts (WeightedLookup (NewScripts scripts)) point < length scripts)
       \<and> (\<exists>d g. Intn (rands st r) (TotalWeight (NewScripts scripts)) = Inr (d, g)
            \<and> d + 1 \<le>s TotalWeight (NewScripts scripts)
            \<and> SearchInts (WeightedLookup (NewScripts scripts)) (d + 1) < length scripts
            \<and> Choose (NewScripts scripts) r st =
                (Inr (scripts ! SearchInts (WeightedLookup (NewScripts scripts)) (d + 1)),
                 st\<lparr>rands := (rands st)(r := g)\<rparr>))"
proof -
  let ?S = "NewScripts scripts"
  have ne: "scripts \<noteq> []" using assms(1) by auto
  have bound: "SearchInts (WeightedLookup ?S) point < length scripts"
    if "point \<le>s TotalWeight ?S" for point
  proof -
    have "WeightedLookup ?S \<noteq> []" using ne length_WeightedLookup [of scripts] by auto
    moreover have "point \<le>s WeightedLookup ?S ! (length (WeightedLookup ?S) - 1)"
      using that WeightedLookup_last [OF ne] by (simp add: length_WeightedLookup)
    ultimately show ?thesis
      using SearchInts_lt_if_last [of "WeightedLookup ?S" point] by (simp add: length_WeightedLookup)
  qed
  have pos: "\<not> TotalWeight ?S \<le>s 0" using assms(2) by (simp add: signed.not_le)
  from Intn_draw [OF pos, of "rands st r"] obtain d g where
    d: "Intn (rands st r) (TotalWeight ?S) = Inr (d, g)" "unat d < unat (TotalWeight ?S)"
       "unat (d + 1) = Suc (unat d)"
    by blast
  have T: "unat (TotalWeight ?S) < 2 ^ 63" using pos_small [OF pos] by simp
  have le: "d + 1 \<le>s TotalWeight ?S" using d(2,3) T by (simp add: sle_small)
  have "Choose ?S r st =
      (Inr (scripts ! SearchInts (WeightedLookup ?S) (d + 1)), st\<lparr>rands := (rands st)(r := g)\<rparr>)"
    using assms(1) d(1) bound [OF le]
    by (simp add: Choose_def Choose_at_def Scripts_NewScripts Let_def)
  with d(1) le bound show ?thesis by blast
qed

theorem Choose_index_in_bounds_witness:
  "1 < length [\<lparr>Readonly = True, Weight = 2, Commands = []\<rparr>, \<lparr>Readonly = False, Weight = 3, Commands = []\<rparr>]
   \<and> 0 <s TotalWeight (NewScripts [\<lparr>Readonly = True, Weight = 2, Commands = []\<rparr>, \<lparr>Readonly = False, Weight = 3, Commands = []\<rparr>])
   \<and> (5 :: 64 word) \<le>s TotalWeight (NewScripts [\<lparr>Readonly = True, Weight = 2, Commands = []\<rparr>, \<lparr>Readonly = False, Weight = 3, Commands = []\<rparr>])
   \<and> SearchInts (WeightedLookup (NewScripts [\<lparr>Readonly = True, Weight = 2, Commands = []\<rparr>, \<lparr>Readonly = False, Weight = 3, Commands = []\<rparr>])) 5 < 2
   \<and> Choose (NewScripts [\<lparr>Readonly = True, Weight = 2, Commands = []\<rparr>, \<lparr>Readonly = False, Weight = 3, Commands = []\<rparr>]) 0 store0
       = (Inr \<lparr>Readonly = True, Weight = 2, Commands = []\<rparr>, store0\<lparr>rands := (rands store0)(0 := Generator 1 (\<lambda>_. 0) (\<lambda>_ _. 0) (\<lambda>_ _. 0))\<rparr>)"
proof -
  let ?ss = "[\<lparr>Readonly = True, Weight = 2, Commands = []\<rparr>, \<lparr>Readonly = False, Weight = 3, Commands = []\<rparr>]"
  have h1: "1 < length ?ss" by simp
  have h2: "0 <s TotalWeight (NewScripts ?ss)" by (simp add: NewScripts_def word_sless_alt)
  have h3: "(5 :: 64 word) \<le>s TotalWeight (NewScripts ?ss)" by (simp add: NewScripts_def word_sle_eq)
  from Choose_index_in_bounds [OF h1 h2, of store0 0] h3
  have "SearchInts (WeightedLookup (NewScripts ?ss)) 5 < length ?ss" by blast
  moreover have "Choose (NewScripts ?ss) 0 store0
       = (Inr \<lparr>Readonly = True, Weight = 2, Commands = []\<rparr>, store0\<lparr>rands := (rands store0)(0 := Generator 1 (\<lambda>_. 0) (\<lambda>_ _. 0) (\<lambda>_ _. 0))\<rparr>)"
    by (simp add: Choose_def Choose_at_def Intn_def NewScripts_def SearchInts_def Search_def
        Search_loop.simps word_sle_eq store0_def constant_generator_def)
  ultimately show ?thesis using h1 h2 h3 by simp
qed

text \<open>
  C10. When the expression of a \<open>Set\<close> command fails, the command returns that error and
  changes neither the unit of work nor any map: the scope gains and loses no binding. When
  the expression succeeds, the scope binds the variable to the value.
\<close>

theorem Set_binds_only_on_success:
  "(Expression_Eval e ctx st = (Inl err, st1) \<longrightarrow>
      Execute (SetCommand x e) ctx uow st = (Inr (Some err), uow, st1)
      \<and> maps st1 = maps st \<and> maps_next st1 = maps_next st \<and> deref st1 (Vars ctx) = deref st (Vars ctx))
   \<and> (Expression_Eval e ctx st = (Inr v, st1) \<longrightarrow> Vars ctx = Some a \<longrightarrow>
      Execute (SetCommand x e) ctx uow st = (Inr None, uow, map_store a x v st1)
      \<and> map_of (deref (map_store a x v st1) (Vars ctx)) = (map_of (deref st (Vars ctx)))(x \<mapsto> v))"
  by (auto simp: deref_def map_store_def update_conv' dest: Expression_Eval_maps split: option.splits)

theorem Set_binds_only_on_success_witness:
  "Expression_Eval (Fail (ExprError ''boom'')) \<lparr>Stderr = os_Stderr, Vars = Some 0, Rand = 0\<rparr> store1
     = (Inl (ExprError ''boom''), store1)
   \<and> Execute (SetCommand ''scale'' (Fail (ExprError ''boom''))) \<lparr>Stderr = os_Stderr, Vars = Some 0, Rand = 0\<rparr>
        \<lparr>uow_Readonly = False, Statements = []\<rparr> store1
     = (Inr (Some (ExprError ''boom'')), \<lparr>uow_Readonly = False, Statements = []\<rparr>, store1)
   \<and> deref store1 (Some 0) = [(''scale'', Int64 1)]
   \<and> Expression_Eval (Const (Int64 5)) \<lparr>Stderr = os_Stderr, Vars = Some 0, Rand = 0\<rparr> store1
     = (Inr (Int64 5), store1)
   \<and> Execute (SetCommand ''scale'' (Const (Int64 5))) \<lparr>Stderr = os_Stderr, Vars = Some 0, Rand = 0\<rparr>
        \<lparr>uow_Readonly = False, Statements = []\<rparr> store1
     = (Inr None, \<lparr>uow_Readonly = False, Statements = []\<rparr>, map_store 0 ''scale'' (Int64 5) store1)
   \<and> map_of (deref (map_store 0 ''scale'' (Int64 5) store1) (Some 0)) ''scale'' = Some (Int64 5)"
proof -
  let ?ctx = "\<lparr>Stderr = os_Stderr, Vars = Some 0, Rand = 0\<rparr>"
  let ?uow = "\<lparr>uow_Readonly = False, Statements = []\<rparr>"
  have e1: "Expression_Eval (Fail (ExprError ''boom'')) ?ctx store1 = (Inl (ExprError ''boom''), store1)"
    by (simp add: Expression_Eval_def Fail_def store1_def fun_eq_iff)
  have e2: "Expression_Eval (Const (Int64 5)) ?ctx store1 = (Inr (Int64 5), store1)"
    by (simp add: Expression_Eval_def Const_def store1_def fun_eq_iff)
  have v: "Vars ?ctx = Some 0" by simp
  note t1 = Set_binds_only_on_success [of "Fail (ExprError ''boom'')" ?ctx store1 "ExprError ''boom''" store1
      "''scale''" ?uow, THEN conjunct1, rule_format, OF e1]
  note t2 = Set_binds_only_on_success [of "Const (Int64 5)" ?ctx store1 _ store1
      "''scale''" ?uow "Int64 5" 0, THEN conjunct2, rule_format, OF e2 v]
  have d: "deref store1 (Some 0) = [(''scale'', Int64 1)]" by (simp add: deref_def store1_def)
  from t1 t2 e1 e2 d show ?thesis by simp
qed

end
